theory Spec2Isabelle
  imports Main "HOL-Library.Sublist"
begin

section \<open>Errors\<close>

text \<open>
  The exceptions of \<^verbatim>\<open>tagger.py\<close> that end a run: \<^verbatim>\<open>next\<close> on an exhausted
  generator raises \<^verbatim>\<open>StopIteration\<close>, a failed \<^verbatim>\<open>assert\<close> raises
  \<^verbatim>\<open>AssertionError\<close>, indexing an empty list raises \<^verbatim>\<open>IndexError\<close>, and \<^verbatim>\<open>exit(n)\<close> raises
  \<^verbatim>\<open>SystemExit(n)\<close>.
  None of them is caught anywhere in the file.
\<close>

datatype error = StopIteration | AssertionError | IndexError | SystemExit int

section \<open>The records of the matching engine\<close>

text \<open>
  Modelled from the spec: \<^verbatim>\<open>amazon.py\<close> is not among the sources. The matching engine
  uses an Order or a Refund only through \<^verbatim>\<open>order_id\<close>, \<^verbatim>\<open>transact_amount()\<close>,
  \<^verbatim>\<open>transact_date()\<close> (a date or \<^verbatim>\<open>None\<close>), the flag \<^verbatim>\<open>matched\<close> and
  \<^verbatim>\<open>match(t)\<close>, which marks the record matched. Money is an integer count of
  micro-units; a date is its day number, so that \<^verbatim>\<open>(d1 - d2).days\<close> is a difference of
  integers.
\<close>

record order =
  order_id :: string
  transact_amount :: int
  transact_date :: "int option"
  matched :: bool

definition order_match :: "order \<Rightarrow> order" where
  "order_match o1 = o1\<lparr>matched := True\<rparr>"

text \<open>
  Modelled from the spec: \<^verbatim>\<open>mint.py\<close> is not among the sources. These are the fields
  of a \<^verbatim>\<open>mint.Transaction\<close> that \<^verbatim>\<open>tagger.py\<close> reads. The Python objects are shared
  and mutated in place, so an Order or Refund is referred to by its position in the list
  handed to \<^verbatim>\<open>match_transactions\<close>; \<^verbatim>\<open>orders\<close> holds such positions and is empty
  for an unmatched transaction. \<^verbatim>\<open>t.match(group)\<close> stores the group in \<^verbatim>\<open>orders\<close>.
  \<^verbatim>\<open>children\<close> lists the description, amount and category of the entries a transaction
  was split into before; it is empty for a transaction never split.
\<close>

record transaction =
  trans_id :: nat
  amount :: int
  odate :: int
  merchant :: string
  omerchant :: string
  category :: string
  trans_note :: string
  is_pending :: bool
  is_debit :: bool
  orders :: "nat list"
  children :: "(string \<times> int \<times> string) list"

definition trans_match :: "transaction \<Rightarrow> nat list \<Rightarrow> transaction" where
  "trans_match t grp = t\<lparr>orders := grp\<rparr>"

section \<open>mark\_best\_as\_matched\<close>

text \<open>
  \<^verbatim>\<open>next(o for o in orders if o.transact_date())\<close>: the first member of the group with
  a date; \<^verbatim>\<open>StopIteration\<close> when there is none.
\<close>

fun next_dated :: "order list \<Rightarrow> nat list \<Rightarrow> error + nat" where
  "next_dated st [] = Inl StopIteration"
| "next_dated st (i # rest) =
     (if transact_date (st ! i) \<noteq> None then Inr i else next_dated st rest)"

text \<open>
  The truth value Python gives the object bound to \<^verbatim>\<open>an_order\<close>: an instance of a
  class, which is true.
\<close>

definition truthy :: "order \<Rightarrow> bool" where
  "truthy o1 = True"

definition already_matched :: "order list \<Rightarrow> nat list \<Rightarrow> bool" where
  "already_matched st grp = list_ex (\<lambda>i. matched (st ! i)) grp"

text \<open>
  The loop over the candidate groups, with \<^verbatim>\<open>closest_match\<close> and
  \<^verbatim>\<open>closest_match_num_days\<close> as its state.
\<close>

fun closest_loop ::
  "transaction \<Rightarrow> order list \<Rightarrow> nat list list \<Rightarrow> nat list option \<times> int
     \<Rightarrow> error + (nat list option \<times> int)" where
  "closest_loop t st [] acc = Inr acc"
| "closest_loop t st (grp # rest) (closest_match, closest_match_num_days) =
     (case next_dated st grp of
        Inl e \<Rightarrow> Inl e
      | Inr an_order \<Rightarrow>
          if \<not> truthy (st ! an_order)
          then closest_loop t st rest (closest_match, closest_match_num_days)
          else
            let num_days = odate t - the (transact_date (st ! an_order)) in
            if \<bar>num_days\<bar> < 4 \<and> \<bar>num_days\<bar> < closest_match_num_days
               \<and> \<not> already_matched st grp
            then closest_loop t st rest (Some grp, \<bar>num_days\<bar>)
            else closest_loop t st rest (closest_match, closest_match_num_days))"

definition mark_group :: "order list \<Rightarrow> nat list \<Rightarrow> order list" where
  "mark_group st grp = foldl (\<lambda>s i. s[i := order_match (s ! i)]) st grp"

definition mark_best_as_matched ::
  "transaction \<Rightarrow> nat list list \<Rightarrow> order list \<Rightarrow> error + (transaction \<times> order list)" where
  "mark_best_as_matched t list_of_orders_or_refunds st =
     (if list_of_orders_or_refunds = [] then Inr (t, st)
      else
        case closest_loop t st list_of_orders_or_refunds (None, 365) of
          Inl e \<Rightarrow> Inl e
        | Inr (closest_match, _) \<Rightarrow>
            (case closest_match of
               None \<Rightarrow> Inr (t, st)
             | Some grp \<Rightarrow>
                 if grp = [] then Inr (t, st)
                 else Inr (trans_match t grp, mark_group st grp)))"

section \<open>match\_transactions\<close>

text \<open>
  A \<^verbatim>\<open>defaultdict(list)\<close> keyed by an amount is a function into lists, empty at a key
  never written; \<^verbatim>\<open>d[k].append(v)\<close> is \<open>bucket_append\<close>.
\<close>

definition bucket_append :: "(int \<Rightarrow> 'a list) \<Rightarrow> int \<Rightarrow> 'a \<Rightarrow> (int \<Rightarrow> 'a list)" where
  "bucket_append d k v = d(k := d k @ [v])"

definition sum_amounts_of :: "order list \<Rightarrow> nat list \<Rightarrow> int" where
  "sum_amounts_of st c = sum_list (map (\<lambda>i. transact_amount (st ! i)) c)"

text \<open>First pass: one singleton group per order, keyed by its charged amount.\<close>

definition direct_buckets :: "order list \<Rightarrow> int \<Rightarrow> nat list list" where
  "direct_buckets st =
     foldl (\<lambda>d i. bucket_append d (transact_amount (st ! i)) [i]) (\<lambda>_. []) [0..<length st]"

text \<open>
  \<^verbatim>\<open>oid_to_orders\<close> is a \<^verbatim>\<open>defaultdict(list)\<close> keyed by the order identifier whose
  \<^verbatim>\<open>values()\<close> are read in insertion order: an association list.
\<close>

fun oid_append :: "(string \<times> nat list) list \<Rightarrow> string \<Rightarrow> nat \<Rightarrow> (string \<times> nat list) list" where
  "oid_append [] k v = [(k, [v])]"
| "oid_append ((k', vs) # kvs) k v =
     (if k' = k then (k', vs @ [v]) # kvs else (k', vs) # oid_append kvs k v)"

definition unmatched_positions :: "order list \<Rightarrow> nat list" where
  "unmatched_positions st = filter (\<lambda>i. \<not> matched (st ! i)) [0..<length st]"

definition oid_to_orders :: "order list \<Rightarrow> (string \<times> nat list) list" where
  "oid_to_orders st =
     foldl (\<lambda>d i. oid_append d (order_id (st ! i)) i) [] (unmatched_positions st)"

text \<open>
  \<^verbatim>\<open>itertools.combinations(xs, r)\<close>: the \<open>r\<close>-element subsequences of \<open>xs\<close>, in
  lexicographic order of their positions.
\<close>

fun combinations :: "'a list \<Rightarrow> nat \<Rightarrow> 'a list list" where
  "combinations xs 0 = [[]]"
| "combinations [] (Suc r) = []"
| "combinations (x # xs) (Suc r) = map ((#) x) (combinations xs r) @ combinations xs (Suc r)"

definition combos_of :: "'a list \<Rightarrow> 'a list list" where
  "combos_of orders_same_id =
     concat (map (combinations orders_same_id) [2..<length orders_same_id + 1])"

definition combination_buckets :: "order list \<Rightarrow> int \<Rightarrow> nat list list" where
  "combination_buckets st =
     foldl (\<lambda>d orders_same_id.
              foldl (\<lambda>d' c. bucket_append d' (sum_amounts_of st c) c) d (combos_of orders_same_id))
       (\<lambda>_. []) (map snd (oid_to_orders st))"

text \<open>
  One pass \<^verbatim>\<open>for t in unmatched_trans: mark_best_as_matched(t, amount_to_orders[t.amount])\<close>
  over the transactions at the positions \<open>ks\<close>; the transactions are mutated in place.
\<close>

fun match_loop ::
  "(int \<Rightarrow> nat list list) \<Rightarrow> nat list \<Rightarrow> transaction list \<times> order list
     \<Rightarrow> error + (transaction list \<times> order list)" where
  "match_loop d [] s = Inr s"
| "match_loop d (k # ks) (ts, st) =
     (case mark_best_as_matched (ts ! k) (d (amount (ts ! k))) st of
        Inl e \<Rightarrow> Inl e
      | Inr (t', st') \<Rightarrow> match_loop d ks (ts[k := t'], st'))"

definition match_transactions ::
  "transaction list \<Rightarrow> order list \<Rightarrow> error + (transaction list \<times> order list)" where
  "match_transactions unmatched_trans unmatched_orders =
     (case match_loop (direct_buckets unmatched_orders) [0..<length unmatched_trans]
             (unmatched_trans, unmatched_orders) of
        Inl e \<Rightarrow> Inl e
      | Inr (ts1, st1) \<Rightarrow>
          match_loop (combination_buckets st1)
            (filter (\<lambda>k. orders (ts1 ! k) = []) [0..<length ts1]) (ts1, st1))"


section \<open>Notions used to state the properties of the matching engine\<close>

text \<open>
  The day gap of a candidate group that \<^verbatim>\<open>mark_best_as_matched\<close> may select for \<open>t\<close>:
  the group has a dated member, the gap between \<^verbatim>\<open>t.odate\<close> and the date of its first
  dated member is below 4 days, and no member is matched yet. \<open>None\<close> for any other group.
\<close>

definition candidate_gap :: "transaction \<Rightarrow> order list \<Rightarrow> nat list \<Rightarrow> int option" where
  "candidate_gap t st g =
     (case next_dated st g of
        Inl _ \<Rightarrow> None
      | Inr i \<Rightarrow>
          (case transact_date (st ! i) of
             None \<Rightarrow> None
           | Some d \<Rightarrow>
               if \<bar>odate t - d\<bar> < 4 \<and> \<not> already_matched st g then Some \<bar>odate t - d\<bar>
               else None))"

text \<open>Example records for running the definitions on concrete inputs.\<close>

definition ex_trans :: "int \<Rightarrow> int \<Rightarrow> transaction" where
  "ex_trans a d =
     \<lparr>trans_id = 1, amount = a, odate = d, merchant = ''AMZN Mktp US'',
      omerchant = ''AMZN Mktp US'', category = ''Shopping'', trans_note = [],
      is_pending = False, is_debit = True, orders = [], children = []\<rparr>"

definition ex_order :: "string \<Rightarrow> int \<Rightarrow> int option \<Rightarrow> order" where
  "ex_order oid a d = \<lparr>order_id = oid, transact_amount = a, transact_date = d, matched = False\<rparr>"

definition ex_same_amount :: "order list" where
  "ex_same_amount =
     [ex_order ''A'' 42 (Some 8), ex_order ''B'' 42 (Some 12),
      (ex_order ''C'' 42 (Some 9))\<lparr>matched := True\<rparr>]"

text \<open>
  The still-unmatched orders that carry the order identifier \<open>oid\<close>, in input order.
\<close>

definition same_id_group :: "order list \<Rightarrow> string \<Rightarrow> nat list" where
  "same_id_group st oid = filter (\<lambda>i. order_id (st ! i) = oid) (unmatched_positions st)"

text \<open>
  A matched transaction is sound in the order store \<open>st\<close>: the charged amounts of its
  group sum to its amount, and the date of the group's first dated member is at most
  3 days away from \<^verbatim>\<open>t.odate\<close>.
\<close>

definition group_sound :: "order list \<Rightarrow> transaction \<Rightarrow> bool" where
  "group_sound st t \<longleftrightarrow>
     sum_amounts_of st (orders t) = amount t \<and>
     (\<exists>i d. next_dated st (orders t) = Inr i \<and> transact_date (st ! i) = Some d
            \<and> \<bar>odate t - d\<bar> \<le> 3)"

text \<open>
  Notions of the invariant proof. \<open>extends st st'\<close>: the store \<open>st'\<close> is \<open>st\<close> with
  further orders marked matched. \<open>wf_buckets\<close>: every group of a bucket holds distinct
  positions of the store and is keyed by the sum of its charged amounts. \<open>match_inv\<close>:
  the members of every matched group are marked, the groups are pairwise disjoint, and
  every matched transaction is sound.
\<close>

definition extends :: "order list \<Rightarrow> order list \<Rightarrow> bool" where
  "extends st st' \<longleftrightarrow>
     length st' = length st \<and>
     (\<forall>i. order_id (st' ! i) = order_id (st ! i) \<and>
          transact_amount (st' ! i) = transact_amount (st ! i) \<and>
          transact_date (st' ! i) = transact_date (st ! i) \<and>
          (matched (st ! i) \<longrightarrow> matched (st' ! i)))"

definition wf_buckets :: "order list \<Rightarrow> (int \<Rightarrow> nat list list) \<Rightarrow> bool" where
  "wf_buckets st d \<longleftrightarrow>
     (\<forall>a. \<forall>g\<in>set (d a). (\<forall>i\<in>set g. i < length st) \<and> distinct g \<and> sum_amounts_of st g = a)"

definition match_inv :: "transaction list \<Rightarrow> order list \<Rightarrow> bool" where
  "match_inv ts st \<longleftrightarrow>
     (\<forall>k<length ts. \<forall>i\<in>set (orders (ts ! k)). i < length st \<and> matched (st ! i)) \<and>
     (\<forall>k<length ts. distinct (orders (ts ! k))) \<and>
     (\<forall>k<length ts. \<forall>l<length ts. k \<noteq> l \<longrightarrow> set (orders (ts ! k)) \<inter> set (orders (ts ! l)) = {}) \<and>
     (\<forall>k<length ts. orders (ts ! k) \<noteq> [] \<longrightarrow> group_sound st (ts ! k))"

text \<open>
  An example run: three transactions against four orders, two of them shipments of the
  same purchase \<open>B\<close>.
\<close>

definition ex_transactions :: "transaction list" where
  "ex_transactions = [ex_trans 42 10, ex_trans 42 11, ex_trans 30 12]"

definition ex_orders :: "order list" where
  "ex_orders =
     [ex_order ''A'' 42 (Some 9), ex_order ''B'' 15 (Some 11), ex_order ''B'' 15 (Some 12),
      ex_order ''C'' 42 (Some 30)]"

definition ex_transactions_after :: "transaction list" where
  "ex_transactions_after =
     [(ex_trans 42 10)\<lparr>orders := [0]\<rparr>, ex_trans 42 11, (ex_trans 30 12)\<lparr>orders := [1, 2]\<rparr>]"

definition ex_orders_after :: "order list" where
  "ex_orders_after =
     [(ex_order ''A'' 42 (Some 9))\<lparr>matched := True\<rparr>,
      (ex_order ''B'' 15 (Some 11))\<lparr>matched := True\<rparr>,
      (ex_order ''B'' 15 (Some 12))\<lparr>matched := True\<rparr>, ex_order ''C'' 42 (Some 30)]"

section \<open>Strings\<close>

text \<open>
  Python strings are modelled as lists of characters. \<^verbatim>\<open>str.lower()\<close> is modelled on
  the ASCII letters, which is what it does on the merchant descriptions, domains and
  filters that the tagger compares.
\<close>

definition lower_char :: "char \<Rightarrow> char" where
  "lower_char c =
     (let n = (of_char c :: nat) in if 65 \<le> n \<and> n \<le> 90 then char_of (n + 32) else c)"

definition lower :: "string \<Rightarrow> string" where
  "lower s = map lower_char s"

text \<open>\<^verbatim>\<open>s.split(',')\<close>: the pieces between the commas, at least one piece.\<close>

fun split_comma :: "string \<Rightarrow> string list" where
  "split_comma [] = [[]]"
| "split_comma (c # cs) =
     (if c = CHR '','' then [] # split_comma cs
      else (case split_comma cs of [] \<Rightarrow> [[c]] | w # ws \<Rightarrow> (c # w) # ws))"

text \<open>\<^verbatim>\<open>sub in s\<close> on strings: \<open>sub\<close> occurs in \<open>s\<close> as a contiguous piece.\<close>

fun contains :: "string \<Rightarrow> string \<Rightarrow> bool" where
  "contains sub [] = (sub = [])"
| "contains sub (c # cs) = (prefix sub (c # cs) \<or> contains sub cs)"

definition startswith :: "string \<Rightarrow> string \<Rightarrow> bool" where
  "startswith s pre = prefix pre s"

section \<open>Arguments and counters\<close>

text \<open>
  The command-line arguments that \<^verbatim>\<open>get_mint_updates\<close> reads. An optional string
  argument is \<^verbatim>\<open>None\<close> when absent; Python treats \<^verbatim>\<open>None\<close> and the empty string
  alike as false.
\<close>

record args =
  verbose_itemize :: bool
  no_itemize :: bool
  no_tag_categories :: bool
  prompt_retag :: bool
  retag_changed :: bool
  num_updates :: int
  description_prefix_override :: "string option"
  description_return_prefix_override :: "string option"
  amazon_domains :: string
  mint_input_merchant_filter :: string
  mint_input_categories_filter :: "string option"

definition given :: "string option \<Rightarrow> bool" where
  "given a = (case a of None \<Rightarrow> False | Some s \<Rightarrow> s \<noteq> [])"

text \<open>The counters of \<^verbatim>\<open>stats\<close> that the update loop increments.\<close>

record stats =
  adjust_itemized_tax :: nat
  already_up_to_date :: nat
  misc_charge :: nat
  new_tag :: nat
  no_retag :: nat
  retag :: nat
  user_skipped_retag :: nat
  personal_cat :: nat

section \<open>get\_mint\_updates: the input filters\<close>

text \<open>
  Lines 255 to 267: keep the transactions whose original description \<^verbatim>\<open>omerchant\<close>,
  lowercased, contains one of the filter strings; drop the pending ones; apply the
  category filter when one is given.
\<close>

definition merchant_filter :: "args \<Rightarrow> transaction list \<Rightarrow> transaction list" where
  "merchant_filter a trans_list =
     (let merch_whitelist = split_comma (lower (mint_input_merchant_filter a)) in
      filter (\<lambda>t. list_ex (\<lambda>merch_str. contains merch_str (lower (omerchant t))) merch_whitelist)
        trans_list)"

definition filter_transactions :: "args \<Rightarrow> transaction list \<Rightarrow> transaction list" where
  "filter_transactions a trans_list =
     (let trans1 = merchant_filter a trans_list;
          trans2 = filter (\<lambda>t. \<not> is_pending t) trans1
      in if given (mint_input_categories_filter a)
         then
           let cat_whitelist = set (split_comma (lower (the (mint_input_categories_filter a))))
           in filter (\<lambda>t. lower (category t) \<in> cat_whitelist) trans2
         else trans2)"

section \<open>get\_mint\_updates: the update loop\<close>

text \<open>
  The loop over the matched transactions calls into \<^verbatim>\<open>amazon.py\<close>, \<^verbatim>\<open>mint.py\<close> and
  \<^verbatim>\<open>currency.py\<close>, none of which is among the sources. Their functions are parameters
  of the model, collected in one record, and the loop is verified for every behaviour of
  them. \<open>'o\<close> is a merged Order, \<open>'r\<close> a merged Refund. The two
  \<^verbatim>\<open>attribute_...\<close> methods change the order in place and report whether they did;
  here they return the flag and the changed order. \<^verbatim>\<open>update_category_id\<close> is taken
  with its category map.
\<close>

record ('o, 'r) helpers =
  order_merge :: "nat list \<Rightarrow> 'o"
  website :: "'o \<Rightarrow> string"
  num_items :: "'o \<Rightarrow> nat"
  attribute_subtotal_diff_to_misc_charge :: "'o \<Rightarrow> bool \<times> 'o"
  attribute_itemized_diff_to_per_item_tax :: "'o \<Rightarrow> bool \<times> 'o"
  total_charged :: "'o \<Rightarrow> int"
  total_by_subtotals :: "'o \<Rightarrow> int"
  total_by_items :: "'o \<Rightarrow> int"
  to_mint_transactions :: "'o \<Rightarrow> transaction \<Rightarrow> bool \<Rightarrow> transaction list"
  refund_merge :: "nat list \<Rightarrow> 'r list"
  refund_website :: "'r \<Rightarrow> string"
  to_mint_transaction :: "'r \<Rightarrow> transaction \<Rightarrow> transaction"
  micro_usd_nearly_equal :: "int \<Rightarrow> int \<Rightarrow> bool"
  rm_leading_qty :: "string \<Rightarrow> string"
  update_category_id :: "transaction \<Rightarrow> transaction"
  summarize_new_trans :: "transaction \<Rightarrow> transaction list \<Rightarrow> string \<Rightarrow> transaction list"
  itemize_new_trans :: "transaction list \<Rightarrow> string \<Rightarrow> transaction list"
  old_and_new_are_identical :: "transaction \<Rightarrow> transaction list \<Rightarrow> bool \<Rightarrow> bool"

text \<open>
  Modelled from the spec: \<^verbatim>\<open>mint.Transaction.sum_amounts\<close> is not among the sources;
  the spec calls it the sum of the candidate entry amounts.
\<close>

definition sum_amounts :: "transaction list \<Rightarrow> int" where
  "sum_amounts trans_list = sum_list (map amount trans_list)"

text \<open>
  Lines 320 to 328: the two fix-ups, applied in this order to the merged order.
\<close>

definition fix_ups :: "('o, 'r) helpers \<Rightarrow> 'o \<Rightarrow> bool \<times> bool \<times> 'o" where
  "fix_ups h order0 =
     (let (misc, order1) = attribute_subtotal_diff_to_misc_charge h order0;
          (tax, order2) = attribute_itemized_diff_to_per_item_tax h order1
      in (misc, tax, order2))"

text \<open>
  Lines 312 to 352: the candidate entries of a matched transaction, with the prefix of
  their descriptions, the number of items of a debit's order and the two fix-up flags.
  Each \<^verbatim>\<open>assert\<close> that fails raises \<^verbatim>\<open>AssertionError\<close>; \<^verbatim>\<open>refunds[0]\<close> on an
  empty list raises \<^verbatim>\<open>IndexError\<close>.
\<close>

definition synthesize ::
  "('o, 'r) helpers \<Rightarrow> args \<Rightarrow> transaction
     \<Rightarrow> error + (string \<times> transaction list \<times> nat \<times> bool \<times> bool)" where
  "synthesize h a t =
     (if is_debit t then
        let order0 = order_merge h (orders t);
            prefix0 = (if given (description_prefix_override a)
                       then the (description_prefix_override a)
                       else website h order0 @ '': '');
            (misc, tax, order1) = fix_ups h order0
        in if \<not> micro_usd_nearly_equal h (amount t) (total_charged h order1) then Inl AssertionError
           else if \<not> micro_usd_nearly_equal h (amount t) (total_by_subtotals h order1)
           then Inl AssertionError
           else if \<not> micro_usd_nearly_equal h (amount t) (total_by_items h order1)
           then Inl AssertionError
           else
             let new_transactions = to_mint_transactions h order1 t (\<not> verbose_itemize a)
             in if \<not> micro_usd_nearly_equal h (amount t) (sum_amounts new_transactions)
                then Inl AssertionError
                else Inr (prefix0, new_transactions, num_items h order1, misc, tax)
      else
        (case refund_merge h (orders t) of
           [] \<Rightarrow> Inl IndexError
         | r # rs \<Rightarrow>
             let prefix0 = (if given (description_return_prefix_override a)
                            then the (description_return_prefix_override a)
                            else refund_website h r @ '' refund: '');
                 new_transactions = map (\<lambda>r'. to_mint_transaction h r' t) (r # rs)
             in if \<not> micro_usd_nearly_equal h (amount t) (sum_amounts new_transactions)
                then Inl AssertionError
                else Inr (prefix0, new_transactions, 0, False, False)))"

text \<open>
  Lines 354 to 364: a category the user gave the item before replaces the proposed one;
  the result says whether it did. \<^verbatim>\<open>mint_historic_category_renames\<close> is \<^verbatim>\<open>None\<close> or
  a dictionary; an empty dictionary is false and has no key.
\<close>

definition personalize ::
  "('o, 'r) helpers \<Rightarrow> (string \<rightharpoonup> string) option \<Rightarrow> transaction \<Rightarrow> transaction \<times> nat" where
  "personalize h renames nt =
     (let item_name = rm_leading_qty h (lower (merchant nt)) in
      case (case renames of None \<Rightarrow> None | Some m \<Rightarrow> m item_name) of
        None \<Rightarrow> (update_category_id h nt, 0)
      | Some suggested_cat \<Rightarrow>
          if suggested_cat \<noteq> category nt
          then (update_category_id h (nt\<lparr>category := suggested_cat\<rparr>), 1)
          else (update_category_id h nt, 0))"

text \<open>
  Lines 312 to 372: the proposed replacement entries of a matched transaction, after the
  categories are set and the entries are summarized or itemized, with what the
  counters \<^verbatim>\<open>misc_charge\<close>, \<^verbatim>\<open>adjust_itemized_tax\<close> and \<^verbatim>\<open>personal_cat\<close> gain.
\<close>

definition propose ::
  "('o, 'r) helpers \<Rightarrow> args \<Rightarrow> (string \<rightharpoonup> string) option \<Rightarrow> transaction
     \<Rightarrow> error + (string \<times> transaction list \<times> bool \<times> bool \<times> nat)" where
  "propose h a renames t =
     (case synthesize h a t of
        Inl e \<Rightarrow> Inl e
      | Inr (prefix0, candidates, n_items, misc, tax) \<Rightarrow>
          let tagged = map (personalize h renames) candidates;
              new_transactions = map fst tagged;
              summarize_single_item_order = (is_debit t \<and> n_items = 1 \<and> \<not> verbose_itemize a)
          in Inr (prefix0,
                  (if no_itemize a \<or> summarize_single_item_order
                   then summarize_new_trans h t new_transactions prefix0
                   else itemize_new_trans h new_transactions prefix0),
                  misc, tax, sum_list (map snd tagged)))"

text \<open>
  Lines 379 to 381: the transaction was tagged by the tool before when its current
  description starts with an Amazon domain or with the prefix in use.
\<close>

definition previously_tagged :: "args \<Rightarrow> string \<Rightarrow> transaction \<Rightarrow> bool" where
  "previously_tagged a prefix0 t =
     (let valid_prefixes = split_comma (lower (amazon_domains a)) @ [lower prefix0] in
      list_ex (\<lambda>pre. startswith (lower (merchant t)) pre) valid_prefixes)"

text \<open>
  The state of the loop: the updates collected so far, the counters, and the number of
  keys read from the terminal. \<^verbatim>\<open>readchar.readchar()\<close> blocks until a key is pressed;
  \<open>keys n\<close> is the string it returns on the \<open>n\<close>-th call.
\<close>

type_synonym update = "transaction \<times> transaction list"
type_synonym loop_state = "update list \<times> stats \<times> nat"

datatype flow = Next | Break

text \<open>
  Lines 379 to 404, for a transaction whose proposal differs from what it carries.
  \<^verbatim>\<open>exit(1)\<close> raises \<^verbatim>\<open>SystemExit(1)\<close>; the key compared with is the character
  with code 3, which the terminal sends for Control-C.
\<close>

definition retag_policy ::
  "args \<Rightarrow> (nat \<Rightarrow> string) \<Rightarrow> transaction \<Rightarrow> string \<Rightarrow> transaction list \<Rightarrow> loop_state
     \<Rightarrow> error + (flow \<times> loop_state)" where
  "retag_policy a keys t prefix0 new_transactions s =
     (case s of (updates, st, reads) \<Rightarrow>
      if previously_tagged a prefix0 t then
        if prompt_retag a then
          if num_updates a > 0 \<and> int (length updates) \<ge> num_updates a
          then Inr (Break, (updates, st, reads))
          else
            let action = keys reads in
            if action = [CHR 0x03] then Inl (SystemExit 1)
            else if action \<notin> set [''Y'', ''y'', [CHR 0x0D], [CHR 0x0A]]
            then Inr (Next, (updates, st\<lparr>user_skipped_retag := user_skipped_retag st + 1\<rparr>,
                             Suc reads))
            else Inr (Next, (updates @ [(t, new_transactions)], st\<lparr>retag := retag st + 1\<rparr>,
                             Suc reads))
        else if \<not> retag_changed a
        then Inr (Next, (updates, st\<lparr>no_retag := no_retag st + 1\<rparr>, reads))
        else Inr (Next, (updates @ [(t, new_transactions)], st\<lparr>retag := retag st + 1\<rparr>, reads))
      else Inr (Next, (updates @ [(t, new_transactions)], st\<lparr>new_tag := new_tag st + 1\<rparr>, reads)))"

definition count_fix_ups :: "stats \<Rightarrow> bool \<Rightarrow> bool \<Rightarrow> nat \<Rightarrow> stats" where
  "count_fix_ups st misc tax pc =
     st\<lparr>misc_charge := misc_charge st + (if misc then 1 else 0),
        adjust_itemized_tax := adjust_itemized_tax st + (if tax then 1 else 0),
        personal_cat := personal_cat st + pc\<rparr>"

text \<open>The body of the loop, lines 312 to 404, for one matched transaction.\<close>

definition update_one ::
  "('o, 'r) helpers \<Rightarrow> args \<Rightarrow> (string \<rightharpoonup> string) option \<Rightarrow> (nat \<Rightarrow> string)
     \<Rightarrow> transaction \<Rightarrow> loop_state \<Rightarrow> error + (flow \<times> loop_state)" where
  "update_one h a renames keys t s =
     (case s of (updates, st, reads) \<Rightarrow>
      case propose h a renames t of
        Inl e \<Rightarrow> Inl e
      | Inr (prefix0, new_transactions, misc, tax, pc) \<Rightarrow>
          let st1 = count_fix_ups st misc tax pc in
          if old_and_new_are_identical h t new_transactions (no_tag_categories a)
          then Inr (Next, (updates, st1\<lparr>already_up_to_date := already_up_to_date st1 + 1\<rparr>, reads))
          else retag_policy a keys t prefix0 new_transactions (updates, st1, reads))"

fun update_loop ::
  "('o, 'r) helpers \<Rightarrow> args \<Rightarrow> (string \<rightharpoonup> string) option \<Rightarrow> (nat \<Rightarrow> string)
     \<Rightarrow> transaction list \<Rightarrow> loop_state \<Rightarrow> error + loop_state" where
  "update_loop h a renames keys [] s = Inr s"
| "update_loop h a renames keys (t # ts) s =
     (case update_one h a renames keys t s of
        Inl e \<Rightarrow> Inl e
      | Inr (Break, s') \<Rightarrow> Inr s'
      | Inr (Next, s') \<Rightarrow> update_loop h a renames keys ts s')"

text \<open>
  Lines 294 and 309 to 409: the matched transactions are those with a group in
  \<^verbatim>\<open>orders\<close>; the loop runs over them from an empty update list, and a positive
  \<^verbatim>\<open>num_updates\<close> cuts the list it returns. \<open>trans_list\<close> is the list of transactions after
  both calls of \<^verbatim>\<open>match_transactions\<close>; the result is the update list with the
  counters.
\<close>

definition get_mint_updates ::
  "('o, 'r) helpers \<Rightarrow> args \<Rightarrow> (string \<rightharpoonup> string) option \<Rightarrow> (nat \<Rightarrow> string)
     \<Rightarrow> transaction list \<Rightarrow> stats \<Rightarrow> error + (update list \<times> stats)" where
  "get_mint_updates h a renames keys trans_list st =
     (let matched_trans = filter (\<lambda>t. orders t \<noteq> []) trans_list in
      case update_loop h a renames keys matched_trans ([], st, 0) of
        Inl e \<Rightarrow> Inl e
      | Inr (updates, st', reads) \<Rightarrow>
          Inr (if num_updates a > 0 then take (nat (num_updates a)) updates else updates, st'))"

section \<open>send\_updates\_to\_mint\<close>

text \<open>
  The requests built for the updates, as far as the amounts and descriptions go: an
  update with one new entry edits the transaction in place, any other splits it, and a
  split of a credit carries every amount with its sign flipped.
  \<^verbatim>\<open>micro_usd_to_usd_float\<close> of \<^verbatim>\<open>currency.py\<close> is a parameter.
\<close>

datatype 'f request =
    Modify nat string string
  | Split nat "('f \<times> string) list"

definition split_amount :: "transaction \<Rightarrow> transaction \<Rightarrow> int" where
  "split_amount orig_trans trans_list =
     (if \<not> is_debit orig_trans then amount trans_list * (- 1) else amount trans_list)"

definition request_of :: "(int \<Rightarrow> 'f) \<Rightarrow> update \<Rightarrow> 'f request" where
  "request_of micro_usd_to_usd_float u =
     (case u of (orig_trans, new_trans) \<Rightarrow>
        if length new_trans = 1
        then Modify (trans_id (hd new_trans)) (trans_note (hd new_trans)) (merchant (hd new_trans))
        else Split (trans_id orig_trans)
               (map (\<lambda>trans. (micro_usd_to_usd_float (split_amount orig_trans trans), merchant trans))
                  new_trans))"

definition send_updates_to_mint :: "(int \<Rightarrow> 'f) \<Rightarrow> update list \<Rightarrow> 'f request list" where
  "send_updates_to_mint micro_usd_to_usd_float updates =
     map (request_of micro_usd_to_usd_float) updates"

section \<open>Example arguments\<close>

text \<open>The defaults of \<^verbatim>\<open>define_args\<close>.\<close>

definition default_args :: args where
  "default_args =
     \<lparr>verbose_itemize = False, no_itemize = False, no_tag_categories = False,
      prompt_retag = False, retag_changed = False, num_updates = 0,
      description_prefix_override = None, description_return_prefix_override = None,
      amazon_domains = ''amazon.com,amazon.cn,amazon.in,amazon.co.jp,amazon.com.sg,amazon.com.tr,amazon.fr,amazon.de,amazon.it,amazon.nl,amazon.es,amazon.co.uk,amazon.ca,amazon.com.mx,amazon.com.au,amazon.com.br'',
      mint_input_merchant_filter = ''amazon,amzn'',
      mint_input_categories_filter = None\<rparr>"

definition zero_stats :: stats where
  "zero_stats =
     \<lparr>adjust_itemized_tax = 0, already_up_to_date = 0, misc_charge = 0, new_tag = 0,
      no_retag = 0, retag = 0, user_skipped_retag = 0, personal_cat = 0\<rparr>"

section \<open>An instance of the absent modules\<close>

text \<open>
  Modelled from the spec: \<^verbatim>\<open>currency.micro_usd_nearly_equal\<close> is not among the
  sources. The spec calls two amounts nearly equal when they agree under a small fixed
  epsilon, and a mismatch beyond epsilon a fault; the epsilon is a parameter here.
\<close>

definition nearly_equal_within :: "int \<Rightarrow> int \<Rightarrow> int \<Rightarrow> bool" where
  "nearly_equal_within eps amt1 amt2 \<longleftrightarrow> \<bar>amt1 - amt2\<bar> \<le> eps"

text \<open>
  Modelled from the spec: an order as the reconciler sees it, reduced to its site, its
  charged total, its total by subtotals and the titles and totals of its items.
\<close>

record shipment =
  s_website :: string
  s_total_charged :: int
  s_total_by_subtotals :: int
  s_items :: "(string \<times> int) list"

text \<open>
  Modelled from the spec: one instance of the functions of \<^verbatim>\<open>amazon.py\<close>, \<^verbatim>\<open>mint.py\<close>
  and \<^verbatim>\<open>currency.py\<close>, for running the loop on examples. Orders are merged by
  summing their totals, concatenating their items and keeping the first non-empty site;
  no fix-up changes an order; there is one candidate entry per item, carrying the item's
  title and total; a refund is a site, a title and an amount, and gives one entry; a
  summary is one entry with the prefix, the titles and the transaction's own amount;
  itemizing adds the prefix to every entry; old and new are identical when the
  descriptions, amounts and (unless ignored) categories of the current entries, the
  children of a split transaction or else the transaction itself, are those of the
  proposed ones.
\<close>

definition compare_tuple :: "bool \<Rightarrow> string \<times> int \<times> string \<Rightarrow> string \<times> int \<times> string" where
  "compare_tuple ignore_category e =
     (case e of (m, amt, c) \<Rightarrow> (m, amt, if ignore_category then [] else c))"

definition entry_of :: "transaction \<Rightarrow> string \<times> int \<times> string" where
  "entry_of t = (merchant t, amount t, category t)"

definition ex_helpers ::
  "int \<Rightarrow> (nat \<Rightarrow> shipment) \<Rightarrow> (nat \<Rightarrow> string \<times> string \<times> int)
     \<Rightarrow> (shipment, string \<times> string \<times> int) helpers" where
  "ex_helpers eps shipment_at refund_at =
     \<lparr>order_merge = (\<lambda>refs.
        \<lparr>s_website = (case filter (\<lambda>w. w \<noteq> []) (map (s_website \<circ> shipment_at) refs) of
                        [] \<Rightarrow> [] | w # _ \<Rightarrow> w),
         s_total_charged = sum_list (map (s_total_charged \<circ> shipment_at) refs),
         s_total_by_subtotals = sum_list (map (s_total_by_subtotals \<circ> shipment_at) refs),
         s_items = concat (map (s_items \<circ> shipment_at) refs)\<rparr>),
      website = s_website,
      num_items = (\<lambda>order0. length (s_items order0)),
      attribute_subtotal_diff_to_misc_charge = (\<lambda>order0. (False, order0)),
      attribute_itemized_diff_to_per_item_tax = (\<lambda>order0. (False, order0)),
      total_charged = s_total_charged,
      total_by_subtotals = s_total_by_subtotals,
      total_by_items = (\<lambda>order0. sum_list (map snd (s_items order0))),
      to_mint_transactions = (\<lambda>order0 t skip_free_shipping.
        map (\<lambda>(title, total). t\<lparr>amount := total, merchant := title, children := []\<rparr>)
          (s_items order0)),
      refund_merge = map refund_at,
      refund_website = fst,
      to_mint_transaction = (\<lambda>r t. t\<lparr>amount := snd (snd r), merchant := fst (snd r), children := []\<rparr>),
      micro_usd_nearly_equal = nearly_equal_within eps,
      rm_leading_qty = (\<lambda>s. s),
      update_category_id = (\<lambda>nt. nt),
      summarize_new_trans = (\<lambda>t new_trans prefix0.
        [t\<lparr>merchant := prefix0 @ concat (map merchant new_trans), children := []\<rparr>]),
      itemize_new_trans = (\<lambda>new_trans prefix0.
        map (\<lambda>nt. nt\<lparr>merchant := prefix0 @ merchant nt\<rparr>) new_trans),
      old_and_new_are_identical = (\<lambda>old new ignore_category.
        set (map (compare_tuple ignore_category)
               (if children old \<noteq> [] then children old else [entry_of old]))
        = set (map (compare_tuple ignore_category \<circ> entry_of) new))\<rparr>"

text \<open>
  Two purchases: a widget charged 42, and a cable and a case charged 100 together whose
  item totals, 50 and 51, miss the charge by one micro-unit.
\<close>

definition ex_shipment_at :: "nat \<Rightarrow> shipment" where
  "ex_shipment_at i =
     (if i = 0
      then \<lparr>s_website = ''Amazon.com'', s_total_charged = 42, s_total_by_subtotals = 42,
            s_items = [(''Widget'', 42)]\<rparr>
      else \<lparr>s_website = ''Amazon.com'', s_total_charged = 100, s_total_by_subtotals = 100,
            s_items = [(''Cable'', 50), (''Case'', 51)]\<rparr>)"

definition ex_refund_at :: "nat \<Rightarrow> string \<times> string \<times> int" where
  "ex_refund_at i = (''Amazon.com'', ''Widget'', - 42)"

text \<open>
  Example transactions after matching: \<open>ex_widget\<close> is matched to the widget order and
  not tagged yet, \<open>ex_widget_tagged\<close> carries what the tool proposes for it,
  \<open>ex_widget_renamed\<close> carries a tag that differs from the proposal, and \<open>ex_pair\<close> is
  matched to the order of two items.
\<close>

definition ex_widget :: transaction where
  "ex_widget = (ex_trans 42 10)\<lparr>orders := [0]\<rparr>"

definition ex_widget_tagged :: transaction where
  "ex_widget_tagged = ex_widget\<lparr>merchant := ''Amazon.com: Widget''\<rparr>"

definition ex_widget_renamed :: transaction where
  "ex_widget_renamed = ex_widget\<lparr>merchant := ''Amazon.com: Gadget''\<rparr>"

definition ex_pair :: transaction where
  "ex_pair = (ex_trans 100 10)\<lparr>orders := [1]\<rparr>"

definition ex_h :: "(shipment, string \<times> string \<times> int) helpers" where
  "ex_h = ex_helpers 10 ex_shipment_at ex_refund_at"

text \<open>
  Further example values: a terminal on which every key read is \<open>c\<close>; the arguments
  of an interactive run, without and with a cap of one update; a transaction matched to
  the widget order whose amount is not the order's; a credit; and the entries proposed
  for \<open>ex_pair\<close>.
\<close>

definition always_key :: "string \<Rightarrow> nat \<Rightarrow> string" where
  "always_key c n = c"

definition prompt_args :: args where
  "prompt_args = default_args\<lparr>prompt_retag := True\<rparr>"

definition capped_prompt_args :: args where
  "capped_prompt_args = default_args\<lparr>prompt_retag := True, num_updates := 1\<rparr>"

definition ex_mismatch :: transaction where
  "ex_mismatch = (ex_trans 500 10)\<lparr>orders := [0]\<rparr>"


definition ex_pair_entries :: "transaction list" where
  "ex_pair_entries =
     [ex_pair\<lparr>amount := 50, merchant := ''Amazon.com: Cable''\<rparr>,
      ex_pair\<lparr>amount := 51, merchant := ''Amazon.com: Case''\<rparr>]"

section \<open>Notions used to state the properties of the update loop\<close>

text \<open>
  The three reconciliation checks of a debit: after the fix-ups, the transaction amount
  is nearly equal to the order's charged total, to its total by subtotals and to its
  total by items.
\<close>

definition reconciled :: "('o, 'r) helpers \<Rightarrow> transaction \<Rightarrow> bool" where
  "reconciled h t =
     (case fix_ups h (order_merge h (orders t)) of
        (misc, tax, order1) \<Rightarrow>
          micro_usd_nearly_equal h (amount t) (total_charged h order1) \<and>
          micro_usd_nearly_equal h (amount t) (total_by_subtotals h order1) \<and>
          micro_usd_nearly_equal h (amount t) (total_by_items h order1))"

text \<open>
  The candidate entries of a transaction passed the check of lines 350 to 352.
\<close>

definition candidates_checked :: "('o, 'r) helpers \<Rightarrow> args \<Rightarrow> transaction \<Rightarrow> bool" where
  "candidates_checked h a t =
     (case synthesize h a t of
        Inl e \<Rightarrow> False
      | Inr (prefix0, candidates, rest) \<Rightarrow>
          micro_usd_nearly_equal h (amount t) (sum_amounts candidates))"

text \<open>
  \<open>new_transactions\<close> is what lines 312 to 372 propose for \<open>t\<close>.
\<close>

definition proposed_for ::
  "('o, 'r) helpers \<Rightarrow> args \<Rightarrow> (string \<rightharpoonup> string) option \<Rightarrow> transaction
     \<Rightarrow> transaction list \<Rightarrow> bool" where
  "proposed_for h a renames t new_transactions =
     (case propose h a renames t of
        Inl e \<Rightarrow> False
      | Inr (prefix0, new_transactions', rest) \<Rightarrow> new_transactions' = new_transactions)"


section \<open>The update cap as the specification words it\<close>

text \<open>
  The specification's reading of the cap: the retag policy is resolved for every matched
  transaction, in encounter order and with no look at the cap, and the resolved list is
  then cut to \<^verbatim>\<open>num_updates\<close>. \<open>spec_policy\<close> is \<open>retag_policy\<close> without the test of
  lines 383 and 384.
\<close>

definition spec_policy ::
  "args \<Rightarrow> (nat \<Rightarrow> string) \<Rightarrow> transaction \<Rightarrow> string \<Rightarrow> transaction list \<Rightarrow> loop_state
     \<Rightarrow> error + loop_state" where
  "spec_policy a keys t prefix0 new_transactions s =
     (case s of (updates, st, reads) \<Rightarrow>
      if previously_tagged a prefix0 t then
        if prompt_retag a then
          let action = keys reads in
          if action = [CHR 0x03] then Inl (SystemExit 1)
          else if action \<notin> set [''Y'', ''y'', [CHR 0x0D], [CHR 0x0A]]
          then Inr (updates, st\<lparr>user_skipped_retag := user_skipped_retag st + 1\<rparr>, Suc reads)
          else Inr (updates @ [(t, new_transactions)], st\<lparr>retag := retag st + 1\<rparr>, Suc reads)
        else if \<not> retag_changed a
        then Inr (updates, st\<lparr>no_retag := no_retag st + 1\<rparr>, reads)
        else Inr (updates @ [(t, new_transactions)], st\<lparr>retag := retag st + 1\<rparr>, reads)
      else Inr (updates @ [(t, new_transactions)], st\<lparr>new_tag := new_tag st + 1\<rparr>, reads))"

definition spec_resolve_one ::
  "('o, 'r) helpers \<Rightarrow> args \<Rightarrow> (string \<rightharpoonup> string) option \<Rightarrow> (nat \<Rightarrow> string)
     \<Rightarrow> transaction \<Rightarrow> loop_state \<Rightarrow> error + loop_state" where
  "spec_resolve_one h a renames keys t s =
     (case s of (updates, st, reads) \<Rightarrow>
      case propose h a renames t of
        Inl e \<Rightarrow> Inl e
      | Inr (prefix0, new_transactions, misc, tax, pc) \<Rightarrow>
          let st1 = count_fix_ups st misc tax pc in
          if old_and_new_are_identical h t new_transactions (no_tag_categories a)
          then Inr (updates, st1\<lparr>already_up_to_date := already_up_to_date st1 + 1\<rparr>, reads)
          else spec_policy a keys t prefix0 new_transactions (updates, st1, reads))"

fun spec_resolve_all ::
  "('o, 'r) helpers \<Rightarrow> args \<Rightarrow> (string \<rightharpoonup> string) option \<Rightarrow> (nat \<Rightarrow> string)
     \<Rightarrow> transaction list \<Rightarrow> loop_state \<Rightarrow> error + loop_state" where
  "spec_resolve_all h a renames keys [] s = Inr s"
| "spec_resolve_all h a renames keys (t # ts) s =
     (case spec_resolve_one h a renames keys t s of
        Inl e \<Rightarrow> Inl e
      | Inr s' \<Rightarrow> spec_resolve_all h a renames keys ts s')"

definition spec_capped_updates ::
  "('o, 'r) helpers \<Rightarrow> args \<Rightarrow> (string \<rightharpoonup> string) option \<Rightarrow> (nat \<Rightarrow> string)
     \<Rightarrow> transaction list \<Rightarrow> stats \<Rightarrow> error + update list" where
  "spec_capped_updates h a renames keys trans_list st =
     (case spec_resolve_all h a renames keys (filter (\<lambda>t. orders t \<noteq> []) trans_list) ([], st, 0) of
        Inl e \<Rightarrow> Inl e
      | Inr (updates, st', reads) \<Rightarrow> Inr (take (nat (num_updates a)) updates))"

section \<open>Candidate selection is total exactly on dated groups\<close>

lemma next_dated_Inl:
  "next_dated st g = Inl e \<longleftrightarrow> e = StopIteration \<and> (\<forall>i\<in>set g. transact_date (st ! i) = None)"
  by (induction g) auto

lemma next_dated_Inr:
  "next_dated st g = Inr i \<Longrightarrow> i \<in> set g \<and> transact_date (st ! i) \<noteq> None"
  by (induction g) (auto split: if_splits)

lemma closest_loop_Inl:
  "closest_loop t st gs acc = Inl e \<longleftrightarrow>
     e = StopIteration \<and> (\<exists>g\<in>set gs. \<forall>i\<in>set g. transact_date (st ! i) = None)"
proof (induction t st gs acc rule: closest_loop.induct)
  case (1 t st acc)
  then show ?case by simp
next
  case (2 t st grp rest cm cd)
  show ?case
  proof (cases "next_dated st grp")
    case (Inl e')
    then show ?thesis using next_dated_Inl[of st grp e'] by auto
  next
    case (Inr i)
    then have "\<not> (\<forall>i\<in>set grp. transact_date (st ! i) = None)"
      using next_dated_Inr[of st grp i] by auto
    then show ?thesis using Inr 2 by (auto simp: Let_def truthy_def)
  qed
qed

lemma mark_best_Inl:
  "mark_best_as_matched t groups st = Inl e \<longleftrightarrow>
     e = StopIteration \<and> (\<exists>g\<in>set groups. \<forall>i\<in>set g. transact_date (st ! i) = None)"
proof (cases "closest_loop t st groups (None, 365)")
  case (Inl e')
  then show ?thesis
    using closest_loop_Inl[of t st groups "(None, 365)" e']
    by (auto simp: mark_best_as_matched_def)
next
  case (Inr r)
  then have "\<not> (\<exists>g\<in>set groups. \<forall>i\<in>set g. transact_date (st ! i) = None)"
    using closest_loop_Inl[of t st groups "(None, 365)" StopIteration] by auto
  then show ?thesis using Inr
    by (auto simp: mark_best_as_matched_def split: prod.splits option.splits)
qed

text \<open>
  Claim C9. \<^verbatim>\<open>mark_best_as_matched\<close> returns exactly when every candidate group it is
  handed has a member with a transaction date. A group whose members all lack a date
  makes \<^verbatim>\<open>next\<close> raise \<^verbatim>\<open>StopIteration\<close>, which nothing catches; and whenever
  \<^verbatim>\<open>next\<close> does return, the object it returns is true, so the branch
  \<^verbatim>\<open>if not an_order: continue\<close> is never taken: no group is skipped silently.
\<close>

theorem mark_best_as_matched_total_iff:
  "(mark_best_as_matched t groups st = Inl StopIteration \<longleftrightarrow>
      (\<exists>g\<in>set groups. \<forall>i\<in>set g. transact_date (st ! i) = None))
   \<and> ((\<exists>r. mark_best_as_matched t groups st = Inr r) \<longleftrightarrow>
      (\<forall>g\<in>set groups. \<exists>i\<in>set g. transact_date (st ! i) \<noteq> None))
   \<and> (\<forall>g\<in>set groups. \<forall>i. next_dated st g = Inr i \<longrightarrow> truthy (st ! i))"
proof -
  have a: "mark_best_as_matched t groups st = Inl StopIteration \<longleftrightarrow>
      (\<exists>g\<in>set groups. \<forall>i\<in>set g. transact_date (st ! i) = None)"
    by (simp add: mark_best_Inl)
  have "(\<exists>r. mark_best_as_matched t groups st = Inr r) \<longleftrightarrow>
      \<not> (\<exists>e. mark_best_as_matched t groups st = Inl e)"
    by (cases "mark_best_as_matched t groups st") auto
  then have b: "(\<exists>r. mark_best_as_matched t groups st = Inr r) \<longleftrightarrow>
      (\<forall>g\<in>set groups. \<exists>i\<in>set g. transact_date (st ! i) \<noteq> None)"
    by (auto simp: mark_best_Inl)
  have c: "\<forall>g\<in>set groups. \<forall>i. next_dated st g = Inr i \<longrightarrow> truthy (st ! i)"
    by (simp add: truthy_def)
  from a b c show ?thesis by blast
qed

text \<open>
  On a bucket holding a shipped order and an unshipped one of the same amount the call
  raises; on the shipped order alone it returns.
\<close>

theorem mark_best_as_matched_total_iff_witness:
  "mark_best_as_matched (ex_trans 42 10) [[0], [1]]
     [ex_order ''A'' 42 (Some 9), ex_order ''B'' 42 None] = Inl StopIteration
   \<and> (\<exists>r. mark_best_as_matched (ex_trans 42 10) [[0]] [ex_order ''A'' 42 (Some 9)] = Inr r)"
  using mark_best_as_matched_total_iff
          [of "ex_trans 42 10" "[[0], [1]]" "[ex_order ''A'' 42 (Some 9), ex_order ''B'' 42 None]"]
        mark_best_as_matched_total_iff
          [of "ex_trans 42 10" "[[0]]" "[ex_order ''A'' 42 (Some 9)]"]
  by (simp add: ex_order_def)

section \<open>The nearest eligible candidate is selected, the first one on a tie\<close>

lemma closest_loop_sel:
  assumes "closest_loop t st gs (cm, cd) = Inr (cm', cd')"
  shows "(cm' = cm \<and> cd' = cd \<and> (\<forall>g\<in>set gs. \<forall>m. candidate_gap t st g = Some m \<longrightarrow> cd \<le> m)) \<or>
         (\<exists>pre g post. gs = pre @ g # post \<and> cm' = Some g \<and> candidate_gap t st g = Some cd' \<and> cd' < cd
            \<and> (\<forall>g'\<in>set pre. \<forall>m. candidate_gap t st g' = Some m \<longrightarrow> cd' < m)
            \<and> (\<forall>g'\<in>set post. \<forall>m. candidate_gap t st g' = Some m \<longrightarrow> cd' \<le> m))"
  using assms
proof (induction gs arbitrary: cm cd)
  case Nil
  then show ?case by simp
next
  case (Cons g0 rest)
  from Cons.prems obtain i where i: "next_dated st g0 = Inr i"
    by (cases "next_dated st g0") auto
  then obtain d where d: "transact_date (st ! i) = Some d"
    using next_dated_Inr[of st g0 i] by auto
  let ?m0 = "\<bar>odate t - d\<bar>"
  show ?case
  proof (cases "?m0 < 4 \<and> ?m0 < cd \<and> \<not> already_matched st g0")
    case True
    then have cg0: "candidate_gap t st g0 = Some ?m0"
      by (simp add: candidate_gap_def i d)
    from True Cons.prems have rec: "closest_loop t st rest (Some g0, ?m0) = Inr (cm', cd')"
      by (simp add: i d truthy_def Let_def)
    from Cons.IH[OF rec] show ?thesis
    proof
      assume a: "cm' = Some g0 \<and> cd' = ?m0 \<and>
        (\<forall>g\<in>set rest. \<forall>m. candidate_gap t st g = Some m \<longrightarrow> ?m0 \<le> m)"
      have "g0 # rest = [] @ g0 # rest \<and> cm' = Some g0 \<and> candidate_gap t st g0 = Some cd' \<and> cd' < cd
            \<and> (\<forall>g'\<in>set []. \<forall>m. candidate_gap t st g' = Some m \<longrightarrow> cd' < m)
            \<and> (\<forall>g'\<in>set rest. \<forall>m. candidate_gap t st g' = Some m \<longrightarrow> cd' \<le> m)"
        using a cg0 True by simp
      then show ?thesis by blast
    next
      assume "\<exists>pre g post. rest = pre @ g # post \<and> cm' = Some g \<and> candidate_gap t st g = Some cd' \<and> cd' < ?m0
            \<and> (\<forall>g'\<in>set pre. \<forall>m. candidate_gap t st g' = Some m \<longrightarrow> cd' < m)
            \<and> (\<forall>g'\<in>set post. \<forall>m. candidate_gap t st g' = Some m \<longrightarrow> cd' \<le> m)"
      then obtain pre g post where b: "rest = pre @ g # post" "cm' = Some g"
          "candidate_gap t st g = Some cd'" "cd' < ?m0"
          "\<forall>g'\<in>set pre. \<forall>m. candidate_gap t st g' = Some m \<longrightarrow> cd' < m"
          "\<forall>g'\<in>set post. \<forall>m. candidate_gap t st g' = Some m \<longrightarrow> cd' \<le> m"
        by blast
      have "g0 # rest = (g0 # pre) @ g # post \<and> cm' = Some g \<and> candidate_gap t st g = Some cd' \<and> cd' < cd
            \<and> (\<forall>g'\<in>set (g0 # pre). \<forall>m. candidate_gap t st g' = Some m \<longrightarrow> cd' < m)
            \<and> (\<forall>g'\<in>set post. \<forall>m. candidate_gap t st g' = Some m \<longrightarrow> cd' \<le> m)"
        using b cg0 True by simp
      then show ?thesis by blast
    qed
  next
    case False
    then have cg0: "\<forall>m. candidate_gap t st g0 = Some m \<longrightarrow> cd \<le> m"
      by (auto simp: candidate_gap_def i d)
    from False Cons.prems have rec: "closest_loop t st rest (cm, cd) = Inr (cm', cd')"
      by (auto simp: i d truthy_def Let_def)
    from Cons.IH[OF rec] show ?thesis
    proof
      assume "cm' = cm \<and> cd' = cd \<and>
        (\<forall>g\<in>set rest. \<forall>m. candidate_gap t st g = Some m \<longrightarrow> cd \<le> m)"
      with cg0 show ?thesis by auto
    next
      assume "\<exists>pre g post. rest = pre @ g # post \<and> cm' = Some g \<and> candidate_gap t st g = Some cd' \<and> cd' < cd
            \<and> (\<forall>g'\<in>set pre. \<forall>m. candidate_gap t st g' = Some m \<longrightarrow> cd' < m)
            \<and> (\<forall>g'\<in>set post. \<forall>m. candidate_gap t st g' = Some m \<longrightarrow> cd' \<le> m)"
      then obtain pre g post where b: "rest = pre @ g # post" "cm' = Some g"
          "candidate_gap t st g = Some cd'" "cd' < cd"
          "\<forall>g'\<in>set pre. \<forall>m. candidate_gap t st g' = Some m \<longrightarrow> cd' < m"
          "\<forall>g'\<in>set post. \<forall>m. candidate_gap t st g' = Some m \<longrightarrow> cd' \<le> m"
        by blast
      have "g0 # rest = (g0 # pre) @ g # post \<and> cm' = Some g \<and> candidate_gap t st g = Some cd' \<and> cd' < cd
            \<and> (\<forall>g'\<in>set (g0 # pre). \<forall>m. candidate_gap t st g' = Some m \<longrightarrow> cd' < m)
            \<and> (\<forall>g'\<in>set post. \<forall>m. candidate_gap t st g' = Some m \<longrightarrow> cd' \<le> m)"
        using b cg0 by auto
      then show ?thesis by blast
    qed
  qed
qed

lemma candidate_gap_Some:
  "candidate_gap t st g = Some m \<Longrightarrow>
     m < 4 \<and> \<not> already_matched st g \<and> g \<noteq> [] \<and>
     (\<exists>i d. next_dated st g = Inr i \<and> transact_date (st ! i) = Some d \<and> m = \<bar>odate t - d\<bar>)"
  by (cases g) (auto simp: candidate_gap_def split: sum.splits option.splits if_splits)

lemma mark_best_sel:
  assumes "mark_best_as_matched t groups st = Inr (t', st')"
  shows "((\<forall>g\<in>set groups. candidate_gap t st g = None) \<and> t' = t \<and> st' = st)
       \<or> (\<exists>pre g post m. groups = pre @ g # post \<and> candidate_gap t st g = Some m
            \<and> (\<forall>g'\<in>set pre. \<forall>n. candidate_gap t st g' = Some n \<longrightarrow> m < n)
            \<and> (\<forall>g'\<in>set post. \<forall>n. candidate_gap t st g' = Some n \<longrightarrow> m \<le> n)
            \<and> t' = trans_match t g \<and> st' = mark_group st g)"
proof (cases "groups = []")
  case True
  with assms show ?thesis by (simp add: mark_best_as_matched_def)
next
  case False
  with assms obtain cm cd where loop: "closest_loop t st groups (None, 365) = Inr (cm, cd)"
    by (cases "closest_loop t st groups (None, 365)") (auto simp: mark_best_as_matched_def)
  from closest_loop_sel[OF loop] show ?thesis
  proof
    assume a: "cm = None \<and> cd = 365 \<and>
       (\<forall>g\<in>set groups. \<forall>m. candidate_gap t st g = Some m \<longrightarrow> 365 \<le> m)"
    have "\<forall>g\<in>set groups. candidate_gap t st g = None"
    proof
      fix g assume g: "g \<in> set groups"
      show "candidate_gap t st g = None"
      proof (cases "candidate_gap t st g")
        case None
        then show ?thesis .
      next
        case (Some m)
        with a g have "365 \<le> m" by blast
        moreover from Some have "m < 4" using candidate_gap_Some by blast
        ultimately show ?thesis by simp
      qed
    qed
    moreover from a loop assms False have "t' = t \<and> st' = st"
      by (simp add: mark_best_as_matched_def)
    ultimately show ?thesis by blast
  next
    assume "\<exists>pre g post. groups = pre @ g # post \<and> cm = Some g \<and> candidate_gap t st g = Some cd \<and> cd < 365
            \<and> (\<forall>g'\<in>set pre. \<forall>m. candidate_gap t st g' = Some m \<longrightarrow> cd < m)
            \<and> (\<forall>g'\<in>set post. \<forall>m. candidate_gap t st g' = Some m \<longrightarrow> cd \<le> m)"
    then obtain pre g post where b: "groups = pre @ g # post" "cm = Some g"
          "candidate_gap t st g = Some cd"
          "\<forall>g'\<in>set pre. \<forall>m. candidate_gap t st g' = Some m \<longrightarrow> cd < m"
          "\<forall>g'\<in>set post. \<forall>m. candidate_gap t st g' = Some m \<longrightarrow> cd \<le> m"
      by blast
    from b(3) have "g \<noteq> []" using candidate_gap_Some by blast
    with b(2) loop assms False have "t' = trans_match t g \<and> st' = mark_group st g"
      by (simp add: mark_best_as_matched_def)
    with b show ?thesis by blast
  qed
qed

text \<open>
  Claim C5. When \<^verbatim>\<open>mark_best_as_matched\<close> is run for a transaction on the bucket of
  its exact amount, either no group of the bucket is eligible and nothing changes, or the
  group it matches is eligible (no member matched yet, day gap to \<^verbatim>\<open>t.odate\<close> below 4),
  every eligible group before it in the bucket has a strictly larger gap, and every
  eligible group after it has a gap at least as large: the nearest one, and on a tie the
  first in bucket order.
\<close>

theorem nearest_date_selection:
  assumes "mark_best_as_matched t (amount_to_orders (amount t)) st = Inr (t', st')"
  shows "((\<forall>g\<in>set (amount_to_orders (amount t)). candidate_gap t st g = None)
            \<and> t' = t \<and> st' = st)
       \<or> (\<exists>pre g post m. amount_to_orders (amount t) = pre @ g # post
            \<and> candidate_gap t st g = Some m \<and> m < 4 \<and> \<not> already_matched st g
            \<and> (\<forall>g'\<in>set pre. \<forall>n. candidate_gap t st g' = Some n \<longrightarrow> m < n)
            \<and> (\<forall>g'\<in>set post. \<forall>n. candidate_gap t st g' = Some n \<longrightarrow> m \<le> n)
            \<and> t' = trans_match t g \<and> st' = mark_group st g)"
proof -
  from mark_best_sel[OF assms] show ?thesis
  proof
    assume "(\<forall>g\<in>set (amount_to_orders (amount t)). candidate_gap t st g = None) \<and> t' = t \<and> st' = st"
    then show ?thesis by blast
  next
    assume "\<exists>pre g post m. amount_to_orders (amount t) = pre @ g # post \<and> candidate_gap t st g = Some m
            \<and> (\<forall>g'\<in>set pre. \<forall>n. candidate_gap t st g' = Some n \<longrightarrow> m < n)
            \<and> (\<forall>g'\<in>set post. \<forall>n. candidate_gap t st g' = Some n \<longrightarrow> m \<le> n)
            \<and> t' = trans_match t g \<and> st' = mark_group st g"
    then obtain pre g post m where b: "amount_to_orders (amount t) = pre @ g # post"
        "candidate_gap t st g = Some m"
        "\<forall>g'\<in>set pre. \<forall>n. candidate_gap t st g' = Some n \<longrightarrow> m < n"
        "\<forall>g'\<in>set post. \<forall>n. candidate_gap t st g' = Some n \<longrightarrow> m \<le> n"
        "t' = trans_match t g \<and> st' = mark_group st g"
      by blast
    from b(2) have "m < 4 \<and> \<not> already_matched st g" using candidate_gap_Some by blast
    with b show ?thesis by blast
  qed
qed

text \<open>
  Three orders of the same amount, 2, 2 and 1 days away from the transaction, the last
  one already matched: the first of the two at distance 2 is taken.
\<close>

theorem nearest_date_selection_witness:
  "mark_best_as_matched (ex_trans 42 10)
     (direct_buckets ex_same_amount (amount (ex_trans 42 10))) ex_same_amount
   = Inr (trans_match (ex_trans 42 10) [0], mark_group ex_same_amount [0])
   \<and> candidate_gap (ex_trans 42 10) ex_same_amount [0] = Some 2
   \<and> candidate_gap (ex_trans 42 10) ex_same_amount [1] = Some 2
   \<and> candidate_gap (ex_trans 42 10) ex_same_amount [2] = None"
proof -
  have run: "mark_best_as_matched (ex_trans 42 10)
     (direct_buckets ex_same_amount (amount (ex_trans 42 10))) ex_same_amount
   = Inr (trans_match (ex_trans 42 10) [0], mark_group ex_same_amount [0])"
    by code_simp
  have gaps: "candidate_gap (ex_trans 42 10) ex_same_amount [0] = Some 2
   \<and> candidate_gap (ex_trans 42 10) ex_same_amount [1] = Some 2
   \<and> candidate_gap (ex_trans 42 10) ex_same_amount [2] = None"
    by code_simp
  from nearest_date_selection
         [where amount_to_orders = "direct_buckets ex_same_amount" and t = "ex_trans 42 10"
            and st = ex_same_amount, OF run]
       run gaps
  show ?thesis by simp
qed

section \<open>The combination buckets of the second pass\<close>

lemma bucket_fold:
  "foldl (\<lambda>d c. bucket_append d (key c) (val c)) d0 cs a = d0 a @ map val (filter (\<lambda>c. key c = a) cs)"
  by (induction cs arbitrary: d0) (auto simp: bucket_append_def)

lemma bucket_fold_nested:
  "foldl (\<lambda>d xs. foldl (\<lambda>d' c. bucket_append d' (key c) c) d (f xs)) d0 xss a
     = d0 a @ filter (\<lambda>c. key c = a) (concat (map f xss))"
proof (induction xss arbitrary: d0)
  case Nil
  then show ?case by simp
next
  case (Cons xs xss)
  show ?case
    using bucket_fold[of key "\<lambda>c. c" d0 "f xs" a]
    by (simp add: Cons.IH)
qed

lemma set_combinations:
  "set (combinations xs r) = {c. subseq c xs \<and> length c = r}"
proof (induction xs r rule: combinations.induct)
  case (1 xs)
  then show ?case by auto
next
  case (2 r)
  then show ?case by auto
next
  case (3 x xs r)
  have "{c. subseq c (x # xs) \<and> length c = Suc r}
      = (#) x ` {c. subseq c xs \<and> length c = r} \<union> {c. subseq c xs \<and> length c = Suc r}"
  proof (intro set_eqI iffI)
    fix c assume "c \<in> {c. subseq c (x # xs) \<and> length c = Suc r}"
    then have s: "subseq c (x # xs)" and l: "length c = Suc r" by auto
    from l obtain y c' where c: "c = y # c'" by (cases c) auto
    show "c \<in> (#) x ` {c. subseq c xs \<and> length c = r} \<union> {c. subseq c xs \<and> length c = Suc r}"
      using s l c by (cases "y = x") auto
  next
    fix c assume "c \<in> (#) x ` {c. subseq c xs \<and> length c = r} \<union> {c. subseq c xs \<and> length c = Suc r}"
    then show "c \<in> {c. subseq c (x # xs) \<and> length c = Suc r}"
      by auto
  qed
  with 3 show ?case by simp
qed

lemma set_combos_of:
  "set (combos_of xs) = {c. subseq c xs \<and> 2 \<le> length c}"
proof -
  have "c \<in> set (combos_of xs) \<longleftrightarrow> subseq c xs \<and> 2 \<le> length c" for c
  proof -
    have "c \<in> set (combos_of xs) \<longleftrightarrow> (\<exists>r\<in>set [2..<length xs + 1]. c \<in> set (combinations xs r))"
      unfolding combos_of_def by auto
    also have "\<dots> \<longleftrightarrow> subseq c xs \<and> 2 \<le> length c \<and> length c \<le> length xs"
      by (auto simp: set_combinations)
    also have "\<dots> \<longleftrightarrow> subseq c xs \<and> 2 \<le> length c"
      using list_emb_length[of "(=)" c xs] by auto
    finally show ?thesis .
  qed
  then show ?thesis by auto
qed

lemma oid_append_keys:
  "map fst (oid_append d k v) = (if k \<in> set (map fst d) then map fst d else map fst d @ [k])"
  by (induction d k v rule: oid_append.induct) auto

lemma oid_append_map_of:
  "map_of (oid_append d k v) =
     (map_of d)(k \<mapsto> (case map_of d k of None \<Rightarrow> [] | Some vs \<Rightarrow> vs) @ [v])"
  by (induction d k v rule: oid_append.induct) (auto simp: fun_eq_iff)

lemma oid_fold_keys:
  "distinct (map fst d) \<Longrightarrow> distinct (map fst (foldl (\<lambda>d i. oid_append d (f i) i) d xs))"
  by (induction xs arbitrary: d) (auto simp: oid_append_keys)

lemma oid_fold_map_of:
  "map_of (foldl (\<lambda>d i. oid_append d (f i) i) d xs) k =
     (if filter (\<lambda>i. f i = k) xs = [] then map_of d k
      else Some ((case map_of d k of None \<Rightarrow> [] | Some vs \<Rightarrow> vs) @ filter (\<lambda>i. f i = k) xs))"
proof (induction xs arbitrary: d)
  case Nil
  then show ?case by simp
next
  case (Cons x xs)
  show ?case
    by (simp add: Cons.IH oid_append_map_of)
qed

lemma set_oid_to_orders:
  "set (map snd (oid_to_orders st)) = {same_id_group st k |k. same_id_group st k \<noteq> []}"
proof -
  let ?d = "oid_to_orders st"
  have dist: "distinct (map fst ?d)"
    unfolding oid_to_orders_def by (rule oid_fold_keys) simp
  have m: "map_of ?d k = (if same_id_group st k = [] then None else Some (same_id_group st k))" for k
    unfolding oid_to_orders_def same_id_group_def
    by (simp add: oid_fold_map_of)
  have "set (map snd ?d) = ran (map_of ?d)"
    using ran_distinct[OF dist] by simp
  also have "\<dots> = {same_id_group st k |k. same_id_group st k \<noteq> []}"
    by (auto simp: ran_def m)
  finally show ?thesis .
qed

lemma combination_buckets_eq:
  "combination_buckets st a =
     filter (\<lambda>c. sum_amounts_of st c = a) (concat (map combos_of (map snd (oid_to_orders st))))"
  unfolding combination_buckets_def
  using bucket_fold_nested[of "sum_amounts_of st" combos_of "\<lambda>_. []" "map snd (oid_to_orders st)" a]
  by simp

lemma combination_buckets_iff:
  "c \<in> set (combination_buckets st a) \<longleftrightarrow>
     (\<exists>oid. subseq c (same_id_group st oid) \<and> 2 \<le> length c \<and> sum_amounts_of st c = a)"
proof -
  have "c \<in> set (combination_buckets st a) \<longleftrightarrow>
          sum_amounts_of st c = a \<and> (\<exists>xs\<in>set (map snd (oid_to_orders st)). c \<in> set (combos_of xs))"
    by (auto simp: combination_buckets_eq)
  also have "\<dots> \<longleftrightarrow> sum_amounts_of st c = a \<and>
      (\<exists>k. same_id_group st k \<noteq> [] \<and> subseq c (same_id_group st k) \<and> 2 \<le> length c)"
    unfolding set_oid_to_orders set_combos_of by auto
  also have "\<dots> \<longleftrightarrow> (\<exists>oid. subseq c (same_id_group st oid) \<and> 2 \<le> length c \<and> sum_amounts_of st c = a)"
  proof -
    have "same_id_group st k \<noteq> []" if "subseq c (same_id_group st k)" "2 \<le> length c" for k
      using that by (cases c) auto
    then show ?thesis by blast
  qed
  finally show ?thesis .
qed

lemma combination_buckets_members:
  assumes "c \<in> set (combination_buckets st a)"
  shows "(\<forall>i\<in>set c. i < length st \<and> \<not> matched (st ! i)) \<and> distinct c \<and> 2 \<le> length c \<and>
         (\<forall>i\<in>set c. \<forall>j\<in>set c. order_id (st ! i) = order_id (st ! j)) \<and> sum_amounts_of st c = a"
proof -
  from assms obtain oid where o: "subseq c (same_id_group st oid)" "2 \<le> length c"
      "sum_amounts_of st c = a"
    using combination_buckets_iff by blast
  have sub: "set c \<subseteq> set (same_id_group st oid)"
    using o(1) by (metis in_set_subseqs subseqs_powset PowD image_eqI)
  have d: "distinct (same_id_group st oid)"
    by (simp add: same_id_group_def unmatched_positions_def)
  have "distinct c" using o(1) d subseqs_distinctD[of c "same_id_group st oid"] by simp
  moreover have "\<forall>i\<in>set c. i < length st \<and> \<not> matched (st ! i) \<and> order_id (st ! i) = oid"
    using sub by (auto simp: same_id_group_def unmatched_positions_def)
  ultimately show ?thesis using o by auto
qed





section \<open>Soundness of the matches\<close>

lemma extends_refl: "extends st st"
  by (simp add: extends_def)

lemma extends_trans: "extends a b \<Longrightarrow> extends b c \<Longrightarrow> extends a c"
  by (simp add: extends_def)

lemma mark_one_length: "length (st[j := order_match (st ! j)]) = length st"
  by simp

lemma mark_one_nth:
  "st[j := order_match (st ! j)] ! i = (if i = j \<and> j < length st then order_match (st ! i) else st ! i)"
proof (cases "j < length st")
  case True
  then show ?thesis by (simp add: nth_list_update)
next
  case False
  then show ?thesis by (simp add: list_update_beyond)
qed

lemma mark_group_length: "length (mark_group st g) = length st"
  unfolding mark_group_def by (induction g arbitrary: st) simp_all

lemma mark_group_nth:
  "mark_group st g ! i = (if i \<in> set g \<and> i < length st then order_match (st ! i) else st ! i)"
  unfolding mark_group_def
proof (induction g arbitrary: st)
  case Nil
  then show ?case by simp
next
  case (Cons j g)
  have "foldl (\<lambda>s i. s[i := order_match (s ! i)]) st (j # g) ! i
      = foldl (\<lambda>s i. s[i := order_match (s ! i)]) (st[j := order_match (st ! j)]) g ! i"
    by simp
  also have "\<dots> = (if i \<in> set g \<and> i < length st then order_match (st[j := order_match (st ! j)] ! i)
                     else st[j := order_match (st ! j)] ! i)"
    using Cons.IH[of "st[j := order_match (st ! j)]"] by simp
  also have "\<dots> = (if i \<in> set (j # g) \<and> i < length st then order_match (st ! i) else st ! i)"
    unfolding mark_one_nth by (simp add: order_match_def)
  finally show ?case .
qed

lemma mark_group_props:
  "order_id (mark_group st g ! i) = order_id (st ! i)"
  "transact_amount (mark_group st g ! i) = transact_amount (st ! i)"
  "transact_date (mark_group st g ! i) = transact_date (st ! i)"
  "matched (mark_group st g ! i) \<longleftrightarrow> matched (st ! i) \<or> (i \<in> set g \<and> i < length st)"
  by (auto simp: mark_group_nth order_match_def)

lemma extends_mark_group: "extends st (mark_group st g)"
  by (simp add: extends_def mark_group_props mark_group_length)

lemma extends_sum: "extends st st' \<Longrightarrow> sum_amounts_of st' g = sum_amounts_of st g"
  by (simp add: extends_def sum_amounts_of_def)

lemma extends_next_dated: "extends st st' \<Longrightarrow> next_dated st' g = next_dated st g"
  by (induction g) (auto simp: extends_def)

lemma extends_group_sound: "extends st st' \<Longrightarrow> group_sound st' t = group_sound st t"
  by (simp add: group_sound_def extends_sum extends_next_dated) (simp add: extends_def)

lemma wf_buckets_extends: "extends st st' \<Longrightarrow> wf_buckets st d \<Longrightarrow> wf_buckets st' d"
  unfolding wf_buckets_def by (simp add: extends_sum) (simp add: extends_def)

lemma match_inv_extends:
  assumes "extends st st'" "match_inv ts st"
  shows "match_inv ts st'"
proof -
  have "\<forall>k<length ts. \<forall>i\<in>set (orders (ts ! k)). i < length st' \<and> matched (st' ! i)"
    using assms unfolding match_inv_def extends_def by metis
  moreover have "\<forall>k<length ts. orders (ts ! k) \<noteq> [] \<longrightarrow> group_sound st' (ts ! k)"
    using assms(2) extends_group_sound[OF assms(1)] unfolding match_inv_def by simp
  ultimately show ?thesis using assms(2) unfolding match_inv_def by simp
qed

lemma already_matched_iff: "already_matched st g \<longleftrightarrow> (\<exists>i\<in>set g. matched (st ! i))"
  by (simp add: already_matched_def list_ex_iff)

lemma mark_best_step:
  assumes run: "mark_best_as_matched t (d (amount t)) st = Inr (t', st')"
      and wf: "wf_buckets st d"
  shows "(t' = t \<and> st' = st) \<or>
         (\<exists>g. g \<noteq> [] \<and> distinct g \<and> (\<forall>i\<in>set g. i < length st \<and> \<not> matched (st ! i))
              \<and> t' = t\<lparr>orders := g\<rparr> \<and> st' = mark_group st g \<and> group_sound st (t\<lparr>orders := g\<rparr>))"
proof -
  from mark_best_sel[OF run] show ?thesis
  proof
    assume "(\<forall>g\<in>set (d (amount t)). candidate_gap t st g = None) \<and> t' = t \<and> st' = st"
    then show ?thesis by simp
  next
    assume "\<exists>pre g post m. d (amount t) = pre @ g # post \<and> candidate_gap t st g = Some m
            \<and> (\<forall>g'\<in>set pre. \<forall>n. candidate_gap t st g' = Some n \<longrightarrow> m < n)
            \<and> (\<forall>g'\<in>set post. \<forall>n. candidate_gap t st g' = Some n \<longrightarrow> m \<le> n)
            \<and> t' = trans_match t g \<and> st' = mark_group st g"
    then obtain pre g post m where b: "d (amount t) = pre @ g # post"
        "candidate_gap t st g = Some m" "t' = trans_match t g" "st' = mark_group st g"
      by blast
    from b(1) have gin: "g \<in> set (d (amount t))" by simp
    with wf have g1: "\<forall>i\<in>set g. i < length st" and g2: "distinct g"
      and g3: "sum_amounts_of st g = amount t"
      unfolding wf_buckets_def by blast+
    from candidate_gap_Some[OF b(2)] obtain i dd where c: "m < 4" "\<not> already_matched st g" "g \<noteq> []"
        "next_dated st g = Inr i" "transact_date (st ! i) = Some dd" "m = \<bar>odate t - dd\<bar>"
      by blast
    have snd: "group_sound st (t\<lparr>orders := g\<rparr>)"
      unfolding group_sound_def using g3 c by auto
    have "\<forall>i\<in>set g. i < length st \<and> \<not> matched (st ! i)"
      using g1 c(2) by (auto simp: already_matched_iff)
    with c(3) g2 b(3,4) snd show ?thesis by (auto simp: trans_match_def)
  qed
qed

lemma match_inv_step:
  assumes inv: "match_inv ts st" and k: "k < length ts" and
    g: "distinct g" "\<forall>i\<in>set g. i < length st \<and> \<not> matched (st ! i)" and
    snd: "group_sound st ((ts ! k)\<lparr>orders := g\<rparr>)"
  shows "match_inv (ts[k := (ts ! k)\<lparr>orders := g\<rparr>]) (mark_group st g)"
proof -
  let ?t' = "(ts ! k)\<lparr>orders := g\<rparr>"
  let ?ts' = "ts[k := ?t']"
  let ?st' = "mark_group st g"
  have ext: "extends st ?st'" by (rule extends_mark_group)
  have inv': "match_inv ts ?st'" using match_inv_extends[OF ext inv] .
  have nth: "?ts' ! l = (if l = k then ?t' else ts ! l)" if "l < length ts" for l
    using that k by (simp add: nth_list_update)
  have old: "\<forall>i\<in>set (orders (ts ! l)). i < length st \<and> matched (st ! i)" if "l < length ts" for l
    using inv that unfolding match_inv_def by blast
  have A: "\<forall>i\<in>set (orders (?ts' ! l)). i < length ?st' \<and> matched (?st' ! i)"
    if l: "l < length ts" for l
  proof (cases "l = k")
    case True
    then show ?thesis using g(2) l by (simp add: nth mark_group_props mark_group_length)
  next
    case False
    then show ?thesis using inv' l unfolding match_inv_def by (simp add: nth)
  qed
  have B: "distinct (orders (?ts' ! l))" if l: "l < length ts" for l
    using inv g(1) l unfolding match_inv_def by (simp add: nth)
  have disj: "set g \<inter> set (orders (ts ! l)) = {}" if l: "l < length ts" for l
    using old[OF l] g(2) by auto
  have C: "set (orders (?ts' ! l)) \<inter> set (orders (?ts' ! l')) = {}"
    if l: "l < length ts" "l' < length ts" "l \<noteq> l'" for l l'
  proof -
    consider "l = k" | "l' = k" | "l \<noteq> k" "l' \<noteq> k" by blast
    then show ?thesis
    proof cases
      case 1
      then show ?thesis using l disj[of l'] by (simp add: nth)
    next
      case 2
      then show ?thesis using l disj[of l] by (simp add: nth Int_commute)
    next
      case 3
      then show ?thesis using l inv unfolding match_inv_def by (simp add: nth)
    qed
  qed
  have D: "group_sound ?st' (?ts' ! l)" if l: "l < length ts" "orders (?ts' ! l) \<noteq> []" for l
  proof (cases "l = k")
    case True
    then show ?thesis using snd l extends_group_sound[OF ext] by (simp add: nth)
  next
    case False
    then show ?thesis using inv' l unfolding match_inv_def by (simp add: nth)
  qed
  show ?thesis
    unfolding match_inv_def using A B C D by simp
qed

lemma match_loop_inv:
  assumes "match_loop d ks (ts, st) = Inr (ts', st')" "match_inv ts st" "wf_buckets st d"
    "distinct ks" "\<forall>k\<in>set ks. k < length ts \<and> orders (ts ! k) = []"
  shows "match_inv ts' st' \<and> length ts' = length ts \<and> extends st st'"
  using assms
proof (induction ks arbitrary: ts st)
  case Nil
  then show ?case by (simp add: extends_refl)
next
  case (Cons k ks)
  from Cons.prems(1) obtain t1 st1 where
    run: "mark_best_as_matched (ts ! k) (d (amount (ts ! k))) st = Inr (t1, st1)" and
    rest: "match_loop d ks (ts[k := t1], st1) = Inr (ts', st')"
    by (cases "mark_best_as_matched (ts ! k) (d (amount (ts ! k))) st") auto
  from Cons.prems(5) have k: "k < length ts" "orders (ts ! k) = []" by auto
  have step: "match_inv (ts[k := t1]) st1 \<and> extends st st1"
    using mark_best_step[OF run Cons.prems(3)]
  proof
    assume "t1 = ts ! k \<and> st1 = st"
    then show ?thesis using Cons.prems(2) by (simp add: extends_refl)
  next
    assume "\<exists>g. g \<noteq> [] \<and> distinct g \<and> (\<forall>i\<in>set g. i < length st \<and> \<not> matched (st ! i))
              \<and> t1 = (ts ! k)\<lparr>orders := g\<rparr> \<and> st1 = mark_group st g
              \<and> group_sound st ((ts ! k)\<lparr>orders := g\<rparr>)"
    then obtain g where g: "distinct g" "\<forall>i\<in>set g. i < length st \<and> \<not> matched (st ! i)"
        "t1 = (ts ! k)\<lparr>orders := g\<rparr>" "st1 = mark_group st g"
        "group_sound st ((ts ! k)\<lparr>orders := g\<rparr>)"
      by blast
    show ?thesis
      using match_inv_step[OF Cons.prems(2) k(1) g(1,2,5)] g(3,4) extends_mark_group by simp
  qed
  have wf1: "wf_buckets st1 d" using wf_buckets_extends step Cons.prems(3) by blast
  have ks: "distinct ks" "\<forall>k'\<in>set ks. k' < length (ts[k := t1]) \<and> orders (ts[k := t1] ! k') = []"
    using Cons.prems(4,5) by (auto simp: nth_list_update)
  from Cons.IH[OF rest _ wf1 ks] step
  have "match_inv ts' st' \<and> length ts' = length (ts[k := t1]) \<and> extends st1 st'" by blast
  with step show ?case using extends_trans by auto
qed

lemma direct_buckets_eq:
  "direct_buckets st a = map (\<lambda>i. [i]) (filter (\<lambda>i. transact_amount (st ! i) = a) [0..<length st])"
  unfolding direct_buckets_def
  using bucket_fold[of "\<lambda>i. transact_amount (st ! i)" "\<lambda>i. [i]" "\<lambda>_. []" "[0..<length st]" a]
  by simp

lemma wf_direct_buckets: "wf_buckets st (direct_buckets st)"
  unfolding wf_buckets_def by (auto simp: direct_buckets_eq sum_amounts_of_def)

lemma wf_combination_buckets: "wf_buckets st (combination_buckets st)"
  unfolding wf_buckets_def using combination_buckets_members by blast

lemma match_transactions_inv:
  assumes run: "match_transactions ts st = Inr (ts', st')" and init: "\<forall>t\<in>set ts. orders t = []"
  shows "match_inv ts' st' \<and> length ts' = length ts \<and> extends st st'"
proof -
  from run obtain ts1 st1 where
    a: "match_loop (direct_buckets st) [0..<length ts] (ts, st) = Inr (ts1, st1)" and
    b: "match_loop (combination_buckets st1) (filter (\<lambda>k. orders (ts1 ! k) = []) [0..<length ts1])
          (ts1, st1) = Inr (ts', st')"
    unfolding match_transactions_def
    by (cases "match_loop (direct_buckets st) [0..<length ts] (ts, st)") auto
  have inv0: "match_inv ts st" using init unfolding match_inv_def by simp
  have ks0: "\<forall>k\<in>set [0..<length ts]. k < length ts \<and> orders (ts ! k) = []"
    using init by simp
  from match_loop_inv[OF a inv0 wf_direct_buckets _ ks0]
  have 1: "match_inv ts1 st1" "length ts1 = length ts" "extends st st1" by simp_all
  have ks1: "\<forall>k\<in>set (filter (\<lambda>k. orders (ts1 ! k) = []) [0..<length ts1]).
               k < length ts1 \<and> orders (ts1 ! k) = []"
    by simp
  from match_loop_inv[OF b 1(1) wf_combination_buckets _ ks1]
  have 2: "match_inv ts' st'" "length ts' = length ts1" "extends st1 st'" by simp_all
  from 1 2 show ?thesis using extends_trans by auto
qed


text \<open>
  Claim C1. Let \<^verbatim>\<open>match_transactions\<close> return on transactions none of which is matched
  yet. Then for every transaction it leaves matched, in either pass, the charged amounts
  of the group sum exactly to the transaction's amount and the date of the group's first
  dated member is at most 3 days from \<^verbatim>\<open>t.odate\<close>; no group lists a record twice, and
  the groups of two different transactions share no record.
\<close>

theorem matching_soundness:
  assumes "match_transactions ts st = Inr (ts', st')" and "\<forall>t\<in>set ts. orders t = []"
  shows "(\<forall>k<length ts'. orders (ts' ! k) \<noteq> [] \<longrightarrow> group_sound st' (ts' ! k)) \<and>
         (\<forall>k<length ts'. distinct (orders (ts' ! k))) \<and>
         (\<forall>k<length ts'. \<forall>l<length ts'. k \<noteq> l \<longrightarrow>
             set (orders (ts' ! k)) \<inter> set (orders (ts' ! l)) = {})"
  using match_transactions_inv[OF assms] unfolding match_inv_def by blast

text \<open>
  The example run: the first transaction takes order \<open>A\<close> directly, the second finds
  order \<open>C\<close> 19 days away and stays unmatched, the third takes both shipments of \<open>B\<close>
  in the second pass.
\<close>

theorem matching_soundness_witness:
  "match_transactions ex_transactions ex_orders = Inr (ex_transactions_after, ex_orders_after)
   \<and> group_sound ex_orders_after (ex_transactions_after ! 0)
   \<and> group_sound ex_orders_after (ex_transactions_after ! 2)
   \<and> set (orders (ex_transactions_after ! 0)) \<inter> set (orders (ex_transactions_after ! 2)) = {}"
proof -
  have run: "match_transactions ex_transactions ex_orders = Inr (ex_transactions_after, ex_orders_after)"
    by code_simp
  have init: "\<forall>t\<in>set ex_transactions. orders t = []"
    by (simp add: ex_transactions_def ex_trans_def)
  note sound = matching_soundness[OF run init, THEN conjunct1, rule_format]
  note disj = matching_soundness[OF run init, THEN conjunct2, THEN conjunct2, rule_format]
  have g0: "group_sound ex_orders_after (ex_transactions_after ! 0)"
    by (rule sound) (simp_all add: ex_transactions_after_def)
  have g2: "group_sound ex_orders_after (ex_transactions_after ! 2)"
    by (rule sound) (simp_all add: ex_transactions_after_def)
  have d: "set (orders (ex_transactions_after ! 0)) \<inter> set (orders (ex_transactions_after ! 2)) = {}"
    by (rule disj) (simp_all add: ex_transactions_after_def)
  from run g0 g2 d show ?thesis by (intro conjI)
qed

section \<open>The merchant filter reads the original description\<close>

lemma contains_iff_sublist: "contains sub s \<longleftrightarrow> sublist sub s"
  by (induction s) (auto simp: sublist_Cons_right)

lemma merchant_filter_iff:
  "t \<in> set (merchant_filter a ts) \<longleftrightarrow>
     t \<in> set ts \<and>
     (\<exists>s\<in>set (split_comma (lower (mint_input_merchant_filter a))). sublist s (lower (omerchant t)))"
  by (auto simp: merchant_filter_def list_ex_iff contains_iff_sublist)

lemma merchant_filter_rewrite:
  "merchant_filter a (map (\<lambda>t. t\<lparr>merchant := f t\<rparr>) ts)
     = map (\<lambda>t. t\<lparr>merchant := f t\<rparr>) (merchant_filter a ts)"
  by (simp add: merchant_filter_def filter_map comp_def)

lemma filter_transactions_rewrite:
  "filter_transactions a (map (\<lambda>t. t\<lparr>merchant := f t\<rparr>) ts)
     = map (\<lambda>t. t\<lparr>merchant := f t\<rparr>) (filter_transactions a ts)"
  by (simp add: filter_transactions_def merchant_filter_rewrite filter_map comp_def Let_def)

text \<open>
  Claim C10. The merchant filter keeps a transaction exactly when its original
  description \<^verbatim>\<open>omerchant\<close>, lowercased, contains one of the lowercased filter strings.
  The current description \<^verbatim>\<open>merchant\<close> is not read: rewriting it in any way changes
  neither the result of the merchant filter nor that of the input filters as a whole, so
  a transaction the tool has renamed stays eligible on later runs.
\<close>

theorem merchant_filter_on_original_description:
  "(t \<in> set (merchant_filter a ts) \<longleftrightarrow>
       t \<in> set ts \<and>
       (\<exists>s\<in>set (split_comma (lower (mint_input_merchant_filter a))).
          sublist s (lower (omerchant t))))
   \<and> merchant_filter a (map (\<lambda>t. t\<lparr>merchant := f t\<rparr>) ts)
       = map (\<lambda>t. t\<lparr>merchant := f t\<rparr>) (merchant_filter a ts)
   \<and> filter_transactions a (map (\<lambda>t. t\<lparr>merchant := f t\<rparr>) ts)
       = map (\<lambda>t. t\<lparr>merchant := f t\<rparr>) (filter_transactions a ts)"
  using merchant_filter_iff[of t a ts] merchant_filter_rewrite[of a f ts]
    filter_transactions_rewrite[of a f ts]
  by blast

text \<open>
  A transaction renamed to \<open>Amazon.com: Widget\<close> whose original description is
  \<open>AMZN Mktp US\<close> passes the default filter; one from a grocery does not.
\<close>

theorem merchant_filter_on_original_description_witness:
  "merchant_filter default_args
     [(ex_trans 42 10)\<lparr>merchant := ''Amazon.com: Widget''\<rparr>,
      (ex_trans 42 10)\<lparr>omerchant := ''Local Grocery''\<rparr>]
     = [(ex_trans 42 10)\<lparr>merchant := ''Amazon.com: Widget''\<rparr>]
   \<and> (\<exists>s\<in>set (split_comma (lower (mint_input_merchant_filter default_args))).
         sublist s (lower (omerchant ((ex_trans 42 10)\<lparr>merchant := ''Amazon.com: Widget''\<rparr>))))"
proof -
  have ev: "merchant_filter default_args
     [(ex_trans 42 10)\<lparr>merchant := ''Amazon.com: Widget''\<rparr>,
      (ex_trans 42 10)\<lparr>omerchant := ''Local Grocery''\<rparr>]
     = [(ex_trans 42 10)\<lparr>merchant := ''Amazon.com: Widget''\<rparr>]"
    by code_simp
  have mem: "(ex_trans 42 10)\<lparr>merchant := ''Amazon.com: Widget''\<rparr> \<in> set (merchant_filter default_args
     [(ex_trans 42 10)\<lparr>merchant := ''Amazon.com: Widget''\<rparr>,
      (ex_trans 42 10)\<lparr>omerchant := ''Local Grocery''\<rparr>])"
    unfolding ev by simp
  note iff = merchant_filter_on_original_description
      [of "(ex_trans 42 10)\<lparr>merchant := ''Amazon.com: Widget''\<rparr>" default_args
          "[(ex_trans 42 10)\<lparr>merchant := ''Amazon.com: Widget''\<rparr>,
            (ex_trans 42 10)\<lparr>omerchant := ''Local Grocery''\<rparr>]" merchant, THEN conjunct1]
  from mem have "\<exists>s\<in>set (split_comma (lower (mint_input_merchant_filter default_args))).
         sublist s (lower (omerchant ((ex_trans 42 10)\<lparr>merchant := ''Amazon.com: Widget''\<rparr>)))"
    unfolding iff by (rule conjunct2)
  with ev show ?thesis by (intro conjI)
qed

section \<open>What the update loop emits\<close>

lemma synthesize_checked:
  "synthesize h a t = Inr r \<Longrightarrow> candidates_checked h a t \<and> (is_debit t \<longrightarrow> reconciled h t)"
  unfolding synthesize_def candidates_checked_def reconciled_def
  by (auto simp: Let_def split: if_splits prod.splits list.splits)

lemma synthesize_unreconciled:
  "is_debit t \<Longrightarrow> \<not> reconciled h t \<Longrightarrow> synthesize h a t = Inl AssertionError"
  unfolding synthesize_def reconciled_def
  by (auto simp: Let_def split: if_splits prod.splits)

lemma propose_Inr_synthesize:
  "propose h a renames t = Inr r \<Longrightarrow> \<exists>r'. synthesize h a t = Inr r'"
  unfolding propose_def by (auto split: sum.splits)

lemma propose_unreconciled:
  "is_debit t \<Longrightarrow> \<not> reconciled h t \<Longrightarrow> propose h a renames t = Inl AssertionError"
  unfolding propose_def by (simp add: synthesize_unreconciled)

lemma update_one_unreconciled:
  "is_debit t \<Longrightarrow> \<not> reconciled h t \<Longrightarrow> update_one h a renames keys t s = Inl AssertionError"
  unfolding update_one_def by (simp add: propose_unreconciled split: prod.splits)

lemma retag_policy_updates:
  assumes "retag_policy a keys t prefix0 new (updates, st, reads) = Inr (fl, (updates', st', reads'))"
  shows "updates' = updates \<or> updates' = updates @ [(t, new)]"
  using assms unfolding retag_policy_def by (auto simp: Let_def split: if_splits)

lemma update_one_updates:
  assumes "update_one h a renames keys t (updates, st, reads) = Inr (fl, (updates', st', reads'))"
  shows "updates' = updates \<or>
         (\<exists>new. updates' = updates @ [(t, new)] \<and> proposed_for h a renames t new
                \<and> \<not> old_and_new_are_identical h t new (no_tag_categories a))"
proof (cases "propose h a renames t")
  case (Inl e)
  with assms show ?thesis by (simp add: update_one_def)
next
  case (Inr r)
  obtain prefix0 new misc tax pc where r: "r = (prefix0, new, misc, tax, pc)"
    by (cases r) auto
  show ?thesis
  proof (cases "old_and_new_are_identical h t new (no_tag_categories a)")
    case True
    with assms Inr r show ?thesis by (simp add: update_one_def Let_def)
  next
    case False
    with assms Inr r have
      "retag_policy a keys t prefix0 new (updates, count_fix_ups st misc tax pc, reads)
         = Inr (fl, (updates', st', reads'))"
      by (simp add: update_one_def Let_def)
    from retag_policy_updates[OF this] False Inr r show ?thesis
      by (auto simp: proposed_for_def)
  qed
qed

lemma update_loop_updates:
  assumes "update_loop h a renames keys ts (updates, st, reads) = Inr (updates', st', reads')"
  shows "\<exists>ext. updates' = updates @ ext \<and>
           (\<forall>(t, new)\<in>set ext. t \<in> set ts \<and> proposed_for h a renames t new
                \<and> \<not> old_and_new_are_identical h t new (no_tag_categories a))"
  using assms
proof (induction ts arbitrary: updates st reads)
  case Nil
  then show ?case by simp
next
  case (Cons t ts)
  from Cons.prems obtain fl u1 st1 rd1 where
    one: "update_one h a renames keys t (updates, st, reads) = Inr (fl, (u1, st1, rd1))"
    by (cases "update_one h a renames keys t (updates, st, reads)") (auto split: prod.splits)
  from update_one_updates[OF one] obtain e1 where e1: "u1 = updates @ e1"
    "\<forall>(t', new)\<in>set e1. t' = t \<and> proposed_for h a renames t' new
                \<and> \<not> old_and_new_are_identical h t' new (no_tag_categories a)"
    by (cases "u1 = updates") auto
  show ?case
  proof (cases fl)
    case Break
    with Cons.prems one have "updates' = u1" by simp
    with e1 show ?thesis by (intro exI[of _ e1]) auto
  next
    case Next
    with Cons.prems one have "update_loop h a renames keys ts (u1, st1, rd1) = Inr (updates', st', reads')"
      by simp
    from Cons.IH[OF this] obtain e2 where e2: "updates' = u1 @ e2"
      "\<forall>(t', new)\<in>set e2. t' \<in> set ts \<and> proposed_for h a renames t' new
                \<and> \<not> old_and_new_are_identical h t' new (no_tag_categories a)"
      by blast
    from e1 e2 show ?thesis by (intro exI[of _ "e1 @ e2"]) auto
  qed
qed

lemma get_mint_updates_emitted:
  assumes "get_mint_updates h a renames keys trans_list st = Inr (updates, st')"
  shows "\<forall>(t, new)\<in>set updates. t \<in> set trans_list \<and> orders t \<noteq> [] \<and> proposed_for h a renames t new
            \<and> \<not> old_and_new_are_identical h t new (no_tag_categories a)"
proof -
  from assms obtain ups rd where
    loop: "update_loop h a renames keys (filter (\<lambda>t. orders t \<noteq> []) trans_list) ([], st, 0) = Inr (ups, st', rd)"
    and sub: "set updates \<subseteq> set ups"
    unfolding get_mint_updates_def
    by (auto simp: Let_def set_take_subset split: sum.splits if_splits)
  from update_loop_updates[OF loop] sub show ?thesis by auto
qed

lemma proposed_for_checked:
  "proposed_for h a renames t new \<Longrightarrow> candidates_checked h a t \<and> (is_debit t \<longrightarrow> reconciled h t)"
  unfolding proposed_for_def
  using propose_Inr_synthesize[of h a renames t] synthesize_checked[of h a t]
  by (auto split: sum.splits)


section \<open>The update cap\<close>

lemma retag_policy_spec:
  "retag_policy a keys t prefix0 new (updates, st, reads) =
     (if previously_tagged a prefix0 t \<and> prompt_retag a \<and> num_updates a > 0
          \<and> int (length updates) \<ge> num_updates a
      then Inr (Break, (updates, st, reads))
      else map_sum id (Pair Next) (spec_policy a keys t prefix0 new (updates, st, reads)))"
  unfolding retag_policy_def spec_policy_def by (simp add: Let_def)

lemma update_one_vs_spec:
  "update_one h a renames keys t (updates, st, reads)
       = map_sum id (Pair Next) (spec_resolve_one h a renames keys t (updates, st, reads))
   \<or> (\<exists>st1. update_one h a renames keys t (updates, st, reads) = Inr (Break, (updates, st1, reads))
        \<and> 0 < num_updates a \<and> num_updates a \<le> int (length updates) \<and> prompt_retag a)"
proof (cases "propose h a renames t")
  case (Inl e)
  then show ?thesis by (simp add: update_one_def spec_resolve_one_def)
next
  case (Inr r)
  obtain prefix0 new misc tax pc where r: "r = (prefix0, new, misc, tax, pc)"
    by (cases r) auto
  show ?thesis
  proof (cases "old_and_new_are_identical h t new (no_tag_categories a)")
    case True
    with Inr r show ?thesis by (simp add: update_one_def spec_resolve_one_def Let_def)
  next
    case False
    with Inr r show ?thesis
      by (simp add: update_one_def spec_resolve_one_def Let_def retag_policy_spec)
  qed
qed

lemma spec_policy_grows:
  "spec_policy a keys t prefix0 new (updates, st, reads) = Inr (updates', st', reads')
     \<Longrightarrow> \<exists>ext. updates' = updates @ ext"
  unfolding spec_policy_def by (auto simp: Let_def split: if_splits)

lemma spec_resolve_one_grows:
  assumes "spec_resolve_one h a renames keys t (updates, st, reads) = Inr (updates', st', reads')"
  shows "\<exists>ext. updates' = updates @ ext"
proof (cases "propose h a renames t")
  case (Inl e)
  with assms show ?thesis by (simp add: spec_resolve_one_def)
next
  case (Inr r)
  obtain prefix0 new misc tax pc where r: "r = (prefix0, new, misc, tax, pc)"
    by (cases r) auto
  show ?thesis
  proof (cases "old_and_new_are_identical h t new (no_tag_categories a)")
    case True
    with assms Inr r show ?thesis by (simp add: spec_resolve_one_def Let_def)
  next
    case False
    with assms Inr r have
      "spec_policy a keys t prefix0 new (updates, count_fix_ups st misc tax pc, reads)
         = Inr (updates', st', reads')"
      by (simp add: spec_resolve_one_def Let_def)
    then show ?thesis by (rule spec_policy_grows)
  qed
qed

lemma spec_resolve_all_grows:
  "spec_resolve_all h a renames keys ts (updates, st, reads) = Inr (updates', st', reads')
     \<Longrightarrow> \<exists>ext. updates' = updates @ ext"
proof (induction ts arbitrary: updates st reads)
  case Nil
  then show ?case by simp
next
  case (Cons t ts)
  from Cons.prems obtain u1 st1 rd1 where
    one: "spec_resolve_one h a renames keys t (updates, st, reads) = Inr (u1, st1, rd1)" and
    rest: "spec_resolve_all h a renames keys ts (u1, st1, rd1) = Inr (updates', st', reads')"
    by (cases "spec_resolve_one h a renames keys t (updates, st, reads)") auto
  from spec_resolve_one_grows[OF one] Cons.IH[OF rest] show ?case by auto
qed

lemma spec_then_source:
  assumes "0 < num_updates a"
    "spec_resolve_all h a renames keys ts (updates, st, reads) = Inr (updates', st', reads')"
  shows "\<exists>updates'' st'' reads''.
           update_loop h a renames keys ts (updates, st, reads) = Inr (updates'', st'', reads'')
           \<and> take (nat (num_updates a)) updates'' = take (nat (num_updates a)) updates'"
  using assms(2)
proof (induction ts arbitrary: updates st reads)
  case Nil
  then show ?case by simp
next
  case (Cons t ts)
  from Cons.prems obtain u1 st1 rd1 where
    one: "spec_resolve_one h a renames keys t (updates, st, reads) = Inr (u1, st1, rd1)" and
    rest: "spec_resolve_all h a renames keys ts (u1, st1, rd1) = Inr (updates', st', reads')"
    by (cases "spec_resolve_one h a renames keys t (updates, st, reads)") auto
  from update_one_vs_spec[of h a renames keys t updates st reads] show ?case
  proof
    assume "update_one h a renames keys t (updates, st, reads)
       = map_sum id (Pair Next) (spec_resolve_one h a renames keys t (updates, st, reads))"
    with one have "update_one h a renames keys t (updates, st, reads) = Inr (Next, (u1, st1, rd1))"
      by simp
    with Cons.IH[OF rest] show ?thesis by simp
  next
    assume "\<exists>stb. update_one h a renames keys t (updates, st, reads) = Inr (Break, (updates, stb, reads))
        \<and> 0 < num_updates a \<and> num_updates a \<le> int (length updates) \<and> prompt_retag a"
    then obtain stb where b: "update_one h a renames keys t (updates, st, reads) = Inr (Break, (updates, stb, reads))"
      "num_updates a \<le> int (length updates)" by blast
    from spec_resolve_all_grows[OF Cons.prems] obtain ext where ext: "updates' = updates @ ext"
      by blast
    have "take (nat (num_updates a)) updates = take (nat (num_updates a)) updates'"
      using b(2) ext by simp
    with b(1) show ?thesis by simp
  qed
qed

lemma source_then_spec:
  assumes "update_loop h a renames keys ts (updates, st, reads) = Inr (updates', st', reads')"
  shows "\<exists>pre post st'' reads''. ts = pre @ post \<and>
           spec_resolve_all h a renames keys pre (updates, st, reads) = Inr (updates', st'', reads'')"
  using assms
proof (induction ts arbitrary: updates st reads)
  case Nil
  then show ?case by simp
next
  case (Cons t ts)
  from update_one_vs_spec[of h a renames keys t updates st reads] show ?case
  proof
    assume eq: "update_one h a renames keys t (updates, st, reads)
       = map_sum id (Pair Next) (spec_resolve_one h a renames keys t (updates, st, reads))"
    with Cons.prems obtain u1 st1 rd1 where
      one: "spec_resolve_one h a renames keys t (updates, st, reads) = Inr (u1, st1, rd1)"
      by (cases "spec_resolve_one h a renames keys t (updates, st, reads)") auto
    with eq Cons.prems have "update_loop h a renames keys ts (u1, st1, rd1) = Inr (updates', st', reads')"
      by simp
    from Cons.IH[OF this] obtain pre post st'' reads'' where p: "ts = pre @ post"
      "spec_resolve_all h a renames keys pre (u1, st1, rd1) = Inr (updates', st'', reads'')"
      by blast
    have "t # ts = (t # pre) @ post \<and>
          spec_resolve_all h a renames keys (t # pre) (updates, st, reads) = Inr (updates', st'', reads'')"
      using p one by simp
    then show ?thesis by blast
  next
    assume "\<exists>stb. update_one h a renames keys t (updates, st, reads) = Inr (Break, (updates, stb, reads))
        \<and> 0 < num_updates a \<and> num_updates a \<le> int (length updates) \<and> prompt_retag a"
    then obtain stb where b: "update_one h a renames keys t (updates, st, reads) = Inr (Break, (updates, stb, reads))"
      by blast
    with Cons.prems have "updates' = updates" by simp
    then have "t # ts = [] @ (t # ts) \<and>
          spec_resolve_all h a renames keys [] (updates, st, reads) = Inr (updates', st, reads)"
      by simp
    then show ?thesis by blast
  qed
qed


section \<open>Transactions that are up to date, and runs without a break\<close>



lemma retag_policy_no_break:
  assumes "\<not> (prompt_retag a \<and> 0 < num_updates a)"
    "retag_policy a keys t prefix0 new (updates, st, reads) = Inr (fl, s')"
  shows "fl = Next"
  using assms unfolding retag_policy_def by (auto simp: Let_def split: if_splits)

lemma update_one_no_break:
  assumes "\<not> (prompt_retag a \<and> 0 < num_updates a)"
    "update_one h a renames keys t s = Inr (fl, s')"
  shows "fl = Next"
proof -
  obtain updates st reads where s: "s = (updates, st, reads)" by (cases s) auto
  show ?thesis
  proof (cases "propose h a renames t")
    case (Inl e)
    with assms(2) s show ?thesis by (simp add: update_one_def)
  next
    case (Inr r)
    obtain prefix0 new misc tax pc where r: "r = (prefix0, new, misc, tax, pc)"
      by (cases r) auto
    show ?thesis
    proof (cases "old_and_new_are_identical h t new (no_tag_categories a)")
      case True
      with assms(2) s Inr r show ?thesis by (simp add: update_one_def Let_def)
    next
      case False
      with assms(2) s Inr r have
        "retag_policy a keys t prefix0 new (updates, count_fix_ups st misc tax pc, reads) = Inr (fl, s')"
        by (simp add: update_one_def Let_def)
      from retag_policy_no_break[OF assms(1) this] show ?thesis .
    qed
  qed
qed

lemma update_one_Inr_propose:
  assumes "update_one h a renames keys t s = Inr r"
  shows "\<exists>p. propose h a renames t = Inr p"
proof (cases "propose h a renames t")
  case (Inl e)
  obtain updates st reads where s: "s = (updates, st, reads)" by (cases s) auto
  from assms Inl show ?thesis unfolding s update_one_def by simp
next
  case (Inr p)
  then show ?thesis by blast
qed

lemma update_loop_no_break:
  assumes "\<not> (prompt_retag a \<and> 0 < num_updates a)"
    "update_loop h a renames keys ts s = Inr s'"
  shows "\<forall>t\<in>set ts. \<exists>p. propose h a renames t = Inr p"
  using assms(2)
proof (induction ts arbitrary: s)
  case Nil
  then show ?case by simp
next
  case (Cons t ts)
  from Cons.prems obtain fl s1 where one: "update_one h a renames keys t s = Inr (fl, s1)"
    by (cases "update_one h a renames keys t s") auto
  from update_one_no_break[OF assms(1) one] have fl: "fl = Next" .
  with Cons.prems one have "update_loop h a renames keys ts s1 = Inr s'" by simp
  from Cons.IH[OF this] update_one_Inr_propose[OF one] show ?case by simp
qed

lemma propose_Inr_reconciled:
  assumes "propose h a renames t = Inr p" "is_debit t"
  shows "reconciled h t"
proof -
  from propose_Inr_synthesize[OF assms(1)] obtain r' where "synthesize h a t = Inr r'" ..
  from synthesize_checked[OF this] assms(2) show ?thesis by simp
qed

lemma filter_prefix_fixed:
  assumes "filter P xs = pre @ post"
  shows "filter P pre = pre"
proof -
  have "set pre \<subseteq> set (filter P xs)" unfolding assms by simp
  then have "\<forall>x\<in>set pre. P x" by auto
  then show ?thesis by (simp add: filter_id_conv)
qed


section \<open>Reconciliation is checked before anything is emitted\<close>

text \<open>
  Claim C3. For a debit, the three reconciliation checks are made on the merged order
  after both fix-ups: the transaction amount is nearly equal to the charged total, to the
  total by subtotals and to the total by items. If one of them fails for a transaction
  the loop reaches, the body raises \<^verbatim>\<open>AssertionError\<close> and the run ends with no
  update list. So every update of a debit that \<^verbatim>\<open>get_mint_updates\<close> returns passed
  all three; and when the loop cannot stop early (no interactive mode with a cap), a run
  that returns has checked every matched debit.
\<close>

theorem reconciliation_checked:
  "(is_debit t \<and> \<not> reconciled h t \<longrightarrow> update_one h a renames keys t s = Inl AssertionError)
   \<and> (get_mint_updates h a renames keys trans_list st = Inr (updates, st') \<longrightarrow>
        (\<forall>(t', new)\<in>set updates. is_debit t' \<longrightarrow> reconciled h t'))
   \<and> (get_mint_updates h a renames keys trans_list st = Inr (updates, st')
        \<and> \<not> (prompt_retag a \<and> 0 < num_updates a) \<longrightarrow>
        (\<forall>t'\<in>set trans_list. orders t' \<noteq> [] \<and> is_debit t' \<longrightarrow> reconciled h t'))"
proof (intro conjI impI)
  assume "is_debit t \<and> \<not> reconciled h t"
  then show "update_one h a renames keys t s = Inl AssertionError"
    by (simp add: update_one_unreconciled)
next
  assume run: "get_mint_updates h a renames keys trans_list st = Inr (updates, st')"
  show "\<forall>(t', new)\<in>set updates. is_debit t' \<longrightarrow> reconciled h t'"
    using get_mint_updates_emitted[OF run] proposed_for_checked[of h a renames] by fastforce
next
  assume "get_mint_updates h a renames keys trans_list st = Inr (updates, st')
        \<and> \<not> (prompt_retag a \<and> 0 < num_updates a)"
  then have run: "get_mint_updates h a renames keys trans_list st = Inr (updates, st')"
    and nb: "\<not> (prompt_retag a \<and> 0 < num_updates a)" by simp_all
  from run obtain s' where
    loop: "update_loop h a renames keys (filter (\<lambda>t. orders t \<noteq> []) trans_list) ([], st, 0) = Inr s'"
    unfolding get_mint_updates_def
    by (cases "update_loop h a renames keys (filter (\<lambda>t. orders t \<noteq> []) trans_list) ([], st, 0)")
       (auto simp: Let_def)
  from update_loop_no_break[OF nb loop]
  have "\<forall>t'\<in>set (filter (\<lambda>t. orders t \<noteq> []) trans_list). \<exists>p. propose h a renames t' = Inr p" .
  then show "\<forall>t'\<in>set trans_list. orders t' \<noteq> [] \<and> is_debit t' \<longrightarrow> reconciled h t'"
    using propose_Inr_reconciled[of h a renames] by auto
qed

text \<open>
  A transaction of 500 matched to the order charged 42 aborts the run; the order of two
  items charged 100 reconciles within the epsilon of the example and its update is
  returned.
\<close>

theorem reconciliation_checked_witness:
  "is_debit ex_mismatch \<and> \<not> reconciled ex_h ex_mismatch
   \<and> update_one ex_h default_args None (always_key ''y'') ex_mismatch ([], zero_stats, 0)
       = Inl AssertionError
   \<and> get_mint_updates ex_h default_args None (always_key ''y'') [ex_pair] zero_stats
       = Inr ([(ex_pair, ex_pair_entries)], zero_stats\<lparr>new_tag := 1\<rparr>)
   \<and> reconciled ex_h ex_pair"
proof -
  have bad: "is_debit ex_mismatch \<and> \<not> reconciled ex_h ex_mismatch"
    by code_simp
  have run: "get_mint_updates ex_h default_args None (always_key ''y'') [ex_pair] zero_stats
       = Inr ([(ex_pair, ex_pair_entries)], zero_stats\<lparr>new_tag := 1\<rparr>)"
    by code_simp
  note inst = reconciliation_checked
      [where h = ex_h and a = default_args and renames = None and keys = "always_key ''y''"
         and t = ex_mismatch and s = "([], zero_stats, 0)"
         and trans_list = "[ex_pair]" and st = zero_stats
         and updates = "[(ex_pair, ex_pair_entries)]" and st' = "zero_stats\<lparr>new_tag := 1\<rparr>"]
  from inst[THEN conjunct1] bad
  have abort: "update_one ex_h default_args None (always_key ''y'') ex_mismatch ([], zero_stats, 0)
       = Inl AssertionError"
    by (rule mp)
  from inst[THEN conjunct2, THEN conjunct1] run
  have "\<forall>(t', new)\<in>set [(ex_pair, ex_pair_entries)]. is_debit t' \<longrightarrow> reconciled ex_h t'"
    by (rule mp)
  then have "is_debit ex_pair \<longrightarrow> reconciled ex_h ex_pair" by simp
  moreover have "is_debit ex_pair" by code_simp
  ultimately have ok: "reconciled ex_h ex_pair" by (rule mp)
  from bad abort run ok show ?thesis by (intro conjI) simp_all
qed

section \<open>Idempotence\<close>



section \<open>The update cap, against the specification's wording\<close>

text \<open>
  Claim C7. With a cap \<^verbatim>\<open>num_updates\<close> above 0: whenever resolving the policy for all
  matched transactions and cutting the resolved list to the cap yields a list,
  \<^verbatim>\<open>get_mint_updates\<close> returns that same list; and whatever list
  \<^verbatim>\<open>get_mint_updates\<close> returns is the resolved and cut list of the matched
  transactions it has gone through, a prefix of them in encounter order (all of them
  unless the interactive loop stopped at the cap).
\<close>

theorem update_cap:
  assumes "0 < num_updates a"
  shows "(spec_capped_updates h a renames keys trans_list st = Inr ups \<longrightarrow>
            (\<exists>st'. get_mint_updates h a renames keys trans_list st = Inr (ups, st')))
       \<and> (get_mint_updates h a renames keys trans_list st = Inr (ups, st') \<longrightarrow>
            (\<exists>pre post. filter (\<lambda>t. orders t \<noteq> []) trans_list = pre @ post
                \<and> spec_capped_updates h a renames keys pre st = Inr ups))"
proof (intro conjI impI)
  let ?m = "filter (\<lambda>t. orders t \<noteq> []) trans_list"
  assume "spec_capped_updates h a renames keys trans_list st = Inr ups"
  then obtain u st1 rd where
    sp: "spec_resolve_all h a renames keys ?m ([], st, 0) = Inr (u, st1, rd)"
    and ups: "ups = take (nat (num_updates a)) u"
    unfolding spec_capped_updates_def
    by (cases "spec_resolve_all h a renames keys ?m ([], st, 0)") auto
  from spec_then_source[OF assms sp] obtain u' st' rd' where
    "update_loop h a renames keys ?m ([], st, 0) = Inr (u', st', rd')"
    "take (nat (num_updates a)) u' = take (nat (num_updates a)) u" by blast
  with ups assms show "\<exists>st'. get_mint_updates h a renames keys trans_list st = Inr (ups, st')"
    by (simp add: get_mint_updates_def)
next
  let ?m = "filter (\<lambda>t. orders t \<noteq> []) trans_list"
  assume "get_mint_updates h a renames keys trans_list st = Inr (ups, st')"
  with assms obtain u rd where
    loop: "update_loop h a renames keys ?m ([], st, 0) = Inr (u, st', rd)"
    and ups: "ups = take (nat (num_updates a)) u"
    unfolding get_mint_updates_def
    by (cases "update_loop h a renames keys ?m ([], st, 0)") (auto simp: Let_def)
  from source_then_spec[OF loop] obtain pre post st2 rd2 where
    p: "?m = pre @ post" "spec_resolve_all h a renames keys pre ([], st, 0) = Inr (u, st2, rd2)"
    by blast
  from filter_prefix_fixed[OF p(1)] p(2) ups
  have "spec_capped_updates h a renames keys pre st = Inr ups"
    by (simp add: spec_capped_updates_def)
  with p(1) show "\<exists>pre post. ?m = pre @ post \<and> spec_capped_updates h a renames keys pre st = Inr ups"
    by blast
qed

text \<open>
  An interactive run capped at one update: the loop stops at the third transaction, and
  the list is the one that full resolution followed by the cut gives.
\<close>

theorem update_cap_witness:
  "0 < num_updates capped_prompt_args
   \<and> spec_capped_updates ex_h capped_prompt_args None (always_key ''y'')
        [ex_widget, ex_widget_tagged, ex_widget_renamed, ex_pair] zero_stats
       = Inr [(ex_widget, [ex_widget_tagged])]
   \<and> (\<exists>st'. get_mint_updates ex_h capped_prompt_args None (always_key ''y'')
              [ex_widget, ex_widget_tagged, ex_widget_renamed, ex_pair] zero_stats
            = Inr ([(ex_widget, [ex_widget_tagged])], st'))"
proof -
  have n: "0 < num_updates capped_prompt_args" by code_simp
  have sp: "spec_capped_updates ex_h capped_prompt_args None (always_key ''y'')
        [ex_widget, ex_widget_tagged, ex_widget_renamed, ex_pair] zero_stats
       = Inr [(ex_widget, [ex_widget_tagged])]"
    by code_simp
  note inst = update_cap
      [where h = ex_h and a = capped_prompt_args and renames = None and keys = "always_key ''y''"
         and trans_list = "[ex_widget, ex_widget_tagged, ex_widget_renamed, ex_pair]"
         and st = zero_stats and ups = "[(ex_widget, [ex_widget_tagged])]", OF n]
  from inst[THEN conjunct1] sp
  have ex: "\<exists>st'. get_mint_updates ex_h capped_prompt_args None (always_key ''y'')
              [ex_widget, ex_widget_tagged, ex_widget_renamed, ex_pair] zero_stats
            = Inr ([(ex_widget, [ex_widget_tagged])], st')"
    by (rule mp)
  from n sp ex show ?thesis by (intro conjI)
qed

section \<open>Synthesis conservation\<close>




section \<open>Answers at the interactive prompt\<close>

text \<open>
  Claim C8, as the code has it. When the prompt is reached (the transaction was tagged
  before, interactive mode is on and the cap is not reached): the Control-C character
  ends the program with \<^verbatim>\<open>exit(1)\<close>; \<open>Y\<close>, \<open>y\<close>, carriage return and line feed
  accept the retag; every other key, not only an explicit no, counts the transaction as
  \<^verbatim>\<open>user_skipped_retag\<close> and the loop goes on.
\<close>

theorem prompt_answers:
  assumes "previously_tagged a prefix0 t" "prompt_retag a"
    "\<not> (0 < num_updates a \<and> num_updates a \<le> int (length updates))"
  shows "(keys reads = [CHR 0x03] \<longrightarrow>
            retag_policy a keys t prefix0 new (updates, st, reads) = Inl (SystemExit 1))
       \<and> (keys reads \<in> {''Y'', ''y'', [CHR 0x0D], [CHR 0x0A]} \<longrightarrow>
            retag_policy a keys t prefix0 new (updates, st, reads)
              = Inr (Next, (updates @ [(t, new)], st\<lparr>retag := retag st + 1\<rparr>, Suc reads)))
       \<and> (keys reads \<notin> {[CHR 0x03], ''Y'', ''y'', [CHR 0x0D], [CHR 0x0A]} \<longrightarrow>
            retag_policy a keys t prefix0 new (updates, st, reads)
              = Inr (Next, (updates, st\<lparr>user_skipped_retag := user_skipped_retag st + 1\<rparr>,
                            Suc reads)))"
proof (intro conjI impI)
  assume "keys reads = [CHR 0x03]"
  with assms show "retag_policy a keys t prefix0 new (updates, st, reads) = Inl (SystemExit 1)"
    by (simp add: retag_policy_def Let_def)
next
  assume k: "keys reads \<in> {''Y'', ''y'', [CHR 0x0D], [CHR 0x0A]}"
  then have "keys reads \<noteq> [CHR 0x03]" by auto
  with k assms show "retag_policy a keys t prefix0 new (updates, st, reads)
              = Inr (Next, (updates @ [(t, new)], st\<lparr>retag := retag st + 1\<rparr>, Suc reads))"
    by (simp add: retag_policy_def Let_def)
next
  assume k: "keys reads \<notin> {[CHR 0x03], ''Y'', ''y'', [CHR 0x0D], [CHR 0x0A]}"
  then have "keys reads \<noteq> [CHR 0x03]" "keys reads \<notin> set [''Y'', ''y'', [CHR 0x0D], [CHR 0x0A]]"
    by auto
  with assms show "retag_policy a keys t prefix0 new (updates, st, reads)
              = Inr (Next, (updates, st\<lparr>user_skipped_retag := user_skipped_retag st + 1\<rparr>,
                            Suc reads))"
    by (simp add: retag_policy_def Let_def)
qed

text \<open>
  The key \<open>n\<close> skips the retag and Control-C exits.
\<close>

theorem prompt_answers_witness:
  "previously_tagged prompt_args ''Amazon.com: '' ex_widget_renamed \<and> prompt_retag prompt_args
   \<and> retag_policy prompt_args (always_key ''n'') ex_widget_renamed ''Amazon.com: ''
        [ex_widget_tagged] ([], zero_stats, 0)
       = Inr (Next, ([], zero_stats\<lparr>user_skipped_retag := user_skipped_retag zero_stats + 1\<rparr>,
                     Suc 0))
   \<and> retag_policy prompt_args (always_key [CHR 0x03]) ex_widget_renamed ''Amazon.com: ''
        [ex_widget_tagged] ([], zero_stats, 0)
       = Inl (SystemExit 1)"
proof -
  have p: "previously_tagged prompt_args ''Amazon.com: '' ex_widget_renamed" by code_simp
  have q: "prompt_retag prompt_args" by code_simp
  have c: "\<not> (0 < num_updates prompt_args
              \<and> num_updates prompt_args \<le> int (length ([] :: update list)))"
    by code_simp
  have kn: "always_key ''n'' 0 \<notin> {[CHR 0x03], ''Y'', ''y'', [CHR 0x0D], [CHR 0x0A]}"
    by (simp add: always_key_def)
  have kc: "always_key [CHR 0x03] 0 = [CHR 0x03]"
    by (simp add: always_key_def)
  from prompt_answers[OF p q c, where keys = "always_key ''n''" and reads = 0
                        and new = "[ex_widget_tagged]" and st = zero_stats,
                      THEN conjunct2, THEN conjunct2] kn
  have no: "retag_policy prompt_args (always_key ''n'') ex_widget_renamed ''Amazon.com: ''
        [ex_widget_tagged] ([], zero_stats, 0)
       = Inr (Next, ([], zero_stats\<lparr>user_skipped_retag := user_skipped_retag zero_stats + 1\<rparr>,
                     Suc 0))"
    by (rule mp)
  from prompt_answers[OF p q c, where keys = "always_key [CHR 0x03]" and reads = 0
                        and new = "[ex_widget_tagged]" and st = zero_stats,
                      THEN conjunct1] kc
  have ctrl: "retag_policy prompt_args (always_key [CHR 0x03]) ex_widget_renamed ''Amazon.com: ''
        [ex_widget_tagged] ([], zero_stats, 0)
       = Inl (SystemExit 1)"
    by (rule mp)
  from p q no ctrl show ?thesis by (intro conjI)
qed

text \<open>
  A key that is neither yes nor no does not abort the run: \<open>x\<close> skips the retag like
  \<open>n\<close> does, and the run returns with the update of the next transaction.
\<close>

theorem prompt_answers_counterexample:
  "retag_policy prompt_args (always_key ''x'') ex_widget_renamed ''Amazon.com: ''
       [ex_widget_tagged] ([], zero_stats, 0)
     = Inr (Next, ([], zero_stats\<lparr>user_skipped_retag := 1\<rparr>, 1))
   \<and> get_mint_updates ex_h prompt_args None (always_key ''x'')
        [ex_widget_renamed, ex_widget] zero_stats
     = Inr ([(ex_widget, [ex_widget_tagged])],
            zero_stats\<lparr>new_tag := 1, user_skipped_retag := 1\<rparr>)"
proof -
  have a: "retag_policy prompt_args (always_key ''x'') ex_widget_renamed ''Amazon.com: ''
       [ex_widget_tagged] ([], zero_stats, 0)
     = Inr (Next, ([], zero_stats\<lparr>user_skipped_retag := 1\<rparr>, 1))"
    by code_simp
  have b: "get_mint_updates ex_h prompt_args None (always_key ''x'')
        [ex_widget_renamed, ex_widget] zero_stats
     = Inr ([(ex_widget, [ex_widget_tagged])],
            zero_stats\<lparr>new_tag := 1, user_skipped_retag := 1\<rparr>)"
    by code_simp
  from a b show ?thesis by (intro conjI)
qed

end
